theory Spec2Isabelle
  imports Main "HOL-Library.Multiset"
begin

section \<open>Strings\<close>

text \<open>
  A JavaScript string is a sequence of UTF-16 code units.  The model uses \<open>string\<close>, whose
  characters carry the code units \<open>0x00 .. 0xFF\<close> (Basic Latin and Latin-1 Supplement);
  \<open>length\<close> is then the \<open>.length\<close> of the JavaScript string.  On this range the
  built-ins used by the pages are closed and are modelled exactly:
  \<^item> \<open>\s\<close> and \<open>String.prototype.trim\<close> treat TAB, LF, VT, FF, CR, SPACE and NBSP
    (\<open>0xA0\<close>) as white space (NEL, \<open>0x85\<close>, is not white space in ECMAScript);
  \<^item> \<open>\w\<close> (no \<open>u\<close> or \<open>i\<close> flag) is \<open>[A-Za-z0-9_]\<close>;
  \<^item> \<open>toLowerCase\<close> maps \<open>A-Z\<close> and \<open>0xC0 .. 0xDE\<close> except \<open>0xD7\<close> (the
    multiplication sign) to the code unit 32 higher and leaves every other code unit alone.
\<close>

definition is_space :: "char \<Rightarrow> bool" where
  "is_space c = (of_char c \<in> {9, 10, 11, 12, 13, 32, 160 :: nat})"

definition is_digit :: "char \<Rightarrow> bool" where
  "is_digit c = (48 \<le> (of_char c :: nat) \<and> (of_char c :: nat) \<le> 57)"

definition is_upper :: "char \<Rightarrow> bool" where
  "is_upper c = (65 \<le> (of_char c :: nat) \<and> (of_char c :: nat) \<le> 90)"

definition is_lower :: "char \<Rightarrow> bool" where
  "is_lower c = (97 \<le> (of_char c :: nat) \<and> (of_char c :: nat) \<le> 122)"

text \<open>The regular-expression class \<open>\w\<close>.\<close>

definition is_word :: "char \<Rightarrow> bool" where
  "is_word c = (is_digit c \<or> is_upper c \<or> is_lower c \<or> c = CHR ''_'')"

definition toLowerCase_char :: "char \<Rightarrow> char" where
  "toLowerCase_char c =
     (if is_upper c \<or>
         (192 \<le> (of_char c :: nat) \<and> (of_char c :: nat) \<le> 222 \<and> (of_char c :: nat) \<noteq> 215)
      then char_of ((of_char c :: nat) + 32) else c)"

definition toLowerCase :: "string \<Rightarrow> string" where
  "toLowerCase s = map toLowerCase_char s"

text \<open>
  Removing the longest prefix and the longest suffix of characters of one class: this is
  \<open>trim()\<close> for the white-space class and \<open>replace(/^-+|-+$/g, '')\<close> for the hyphen.
\<close>

definition trim_by :: "(char \<Rightarrow> bool) \<Rightarrow> string \<Rightarrow> string" where
  "trim_by p s = rev (dropWhile p (rev (dropWhile p s)))"

definition trim :: "string \<Rightarrow> string" where
  "trim s = trim_by is_space s"

text \<open>
  \<open>s.split(c)\<close> for a one-character separator: the result is never empty, and
  \<open>''.split(c)\<close> is \<open>['']\<close>.
\<close>

fun split :: "char \<Rightarrow> string \<Rightarrow> string list" where
  "split c [] = [[]]"
| "split c (x # xs) =
     (if x = c then [] # split c xs
      else (case split c xs of [] \<Rightarrow> [[x]] | y # ys \<Rightarrow> (x # y) # ys))"

section \<open>Slug generation (\<open>generateSlug\<close>, CreatePost.tsx)\<close>

text \<open>The class \<open>[\s_-]\<close> of the second \<open>replace\<close>.\<close>

definition is_sep :: "char \<Rightarrow> bool" where
  "is_sep c = (is_space c \<or> c = CHR ''_'' \<or> c = CHR ''-'')"

definition is_hyphen :: "char \<Rightarrow> bool" where
  "is_hyphen c = (c = CHR ''-'')"

text \<open>\<open>replace(/[\s_-]+/g, '-')\<close>: every maximal run of separators becomes one hyphen.\<close>

function collapse :: "string \<Rightarrow> string" where
  "collapse [] = []"
| "collapse (c # cs) =
     (if is_sep c then CHR ''-'' # collapse (dropWhile is_sep cs) else c # collapse cs)"
  by pat_completeness auto
termination
  by (relation "measure length") (auto simp: length_dropWhile_le less_Suc_eq_le)

text \<open>
  \<^verbatim>\<open>text.toLowerCase().trim().replace(/[^\w\s-]/g, '')
      .replace(/[\s_-]+/g, '-').replace(/^-+|-+$/g, '')\<close>
\<close>

definition generateSlug :: "string \<Rightarrow> string" where
  "generateSlug text =
     trim_by is_hyphen
       (collapse
         (filter (\<lambda>c. is_word c \<or> is_space c \<or> c = CHR ''-'')
           (trim (toLowerCase text))))"

fun decimal :: "nat \<Rightarrow> string" where
  "decimal n =
     (if n < 10 then [char_of (48 + n)] else decimal (n div 10) @ [char_of (48 + n mod 10)])"

section \<open>The backend (schema in App.tsx, requests of the supabase client)\<close>

text \<open>
  The pages talk to a remote database through request/response calls.  The model keeps
  the tables the pages use, with the columns of the \<open>CREATE TABLE\<close> statements, and computes
  from them what the schema decides: the \<open>UNIQUE\<close> constraints on \<open>posts.slug\<close>,
  \<open>tags.name\<close>, \<open>tags.slug\<close> and \<open>post_tags(post_id, tag_id)\<close>, the column defaults and
  the row-level policies of \<open>posts\<close>, \<open>tags\<close> and \<open>post_tags\<close>.  Identifiers
  (\<open>gen_random_uuid()\<close>) are drawn from a counter and \<open>NOW()\<close> is a logical clock.

  Every other way a request can fail (the network, the storage service, a foreign key, an
  expired session on the way) is not computed: the field \<open>faults\<close> lists, for the coming
  requests in order, whether the request is answered with an error before it reaches the
  tables.  A claim about all runs quantifies over all fault lists.

  The client never raises: each request returns \<open>{ data, error }\<close>, here a value of
  \<open>error + 'a\<close>.  The field \<open>trace\<close> records each request with the error it was answered
  with, in the order of issue.
\<close>

datatype error = BackendError string

type_synonym uid = string

datatype app_role = Admin | User

record post =
  p_id :: nat
  p_title :: string
  p_slug :: string
  p_content :: string
  p_excerpt :: string
  p_featured_image :: "string option"
  p_author_id :: uid
  p_created_at :: nat
  p_published :: bool

record tag =
  t_id :: nat
  t_name :: string
  t_slug :: string
  t_created_at :: nat

record post_tag =
  pt_id :: nat
  pt_post_id :: nat
  pt_tag_id :: nat
  pt_created_at :: nat

text \<open>The object literal of \<open>from('posts').insert({ ... })\<close>.\<close>

record new_post =
  np_title :: string
  np_slug :: string
  np_content :: string
  np_excerpt :: string
  np_featured_image :: "string option"
  np_author_id :: uid

datatype request =
    StorageUpload string
  | PostsInsert new_post
  | TagsSelectBySlug string
  | TagsInsert string string
  | PostTagsInsert nat nat
  | PostsSelectPublished
  | PostsSelectBySlug string
  | PostTagsSelectByTag nat

record backend =
  posts :: "post list"
  tags :: "tag list"
  post_tags :: "post_tag list"
  objects :: "string list"
  user_roles :: "(uid \<times> app_role) list"
  auth_uid :: "uid option"
  project_url :: string
  next_id :: nat
  clock :: nat
  faults :: "error option list"
  trace :: "(request \<times> error option) list"

definition error_of :: "error + 'a \<Rightarrow> error option" where
  "error_of r = (case r of Inl e \<Rightarrow> Some e | Inr _ \<Rightarrow> None)"

text \<open>
  One round trip: the request is answered by the fault, if one is due, and by the handler
  otherwise; the answer is recorded and the clock advances.
\<close>

definition round_trip ::
  "request \<Rightarrow> (backend \<Rightarrow> (error + 'a) \<times> backend) \<Rightarrow> backend \<Rightarrow> (error + 'a) \<times> backend" where
  "round_trip rq handler s =
     (let (fault, s1) = (case faults s of [] \<Rightarrow> (None, s) | f # fs \<Rightarrow> (f, s\<lparr>faults := fs\<rparr>));
          (r, s2) = (case fault of Some e \<Rightarrow> (Inl e, s1) | None \<Rightarrow> handler s1)
      in (r, s2\<lparr>trace := trace s2 @ [(rq, error_of r)], clock := Suc (clock s2)\<rparr>))"

definition rls_denied :: "string \<Rightarrow> error" where
  "rls_denied table =
     BackendError (''new row violates row-level security policy for table '' @ table)"

definition unique_violation :: "string \<Rightarrow> error" where
  "unique_violation c = BackendError (''duplicate key value violates unique constraint '' @ c)"

definition not_single :: error where
  "not_single = BackendError ''JSON object requested, multiple (or no) rows returned''"

definition has_role :: "backend \<Rightarrow> app_role \<Rightarrow> bool" where
  "has_role s r = (case auth_uid s of None \<Rightarrow> False | Some u \<Rightarrow> (u, r) \<in> set (user_roles s))"

text \<open>
  \<^verbatim>\<open>CREATE POLICY "posts_select" ON public.posts FOR SELECT USING
    (published = true OR auth.uid() = author_id OR public.has_role(auth.uid(), 'admin'))\<close>
\<close>

definition posts_select_policy :: "backend \<Rightarrow> post \<Rightarrow> bool" where
  "posts_select_policy s p =
     (p_published p \<or> auth_uid s = Some (p_author_id p) \<or> has_role s Admin)"

text \<open>\<open>maybeSingle()\<close>: no row is \<open>null\<close>, one row is that row, more rows are an error.\<close>

definition maybeSingle :: "'a list \<Rightarrow> error + 'a option" where
  "maybeSingle rows =
     (case rows of [] \<Rightarrow> Inr None | [r] \<Rightarrow> Inr (Some r) | _ # _ # _ \<Rightarrow> Inl not_single)"

subsection \<open>Writes\<close>

text \<open>
  \<open>storage.from('post-images').upload(path, file)\<close>: the insert policy of the bucket asks
  for a session, and without \<open>upsert\<close> an existing path is refused.
\<close>

definition storage_upload :: "string \<Rightarrow> backend \<Rightarrow> (error + unit) \<times> backend" where
  "storage_upload path =
     round_trip (StorageUpload path) (\<lambda>s.
       if auth_uid s = None then (Inl (rls_denied ''objects''), s)
       else if path \<in> set (objects s) then (Inl (BackendError ''The resource already exists''), s)
       else (Inr (), s\<lparr>objects := objects s @ [path]\<rparr>))"

text \<open>\<open>storage.from('post-images').getPublicUrl(path)\<close>: no request, a string computation.\<close>

definition getPublicUrl :: "backend \<Rightarrow> string \<Rightarrow> string" where
  "getPublicUrl s path = project_url s @ ''/storage/v1/object/public/post-images/'' @ path"

text \<open>
  \<open>from('posts').insert(row).select().single()\<close>: policy \<open>posts_insert\<close>
  (\<open>auth.uid() = author_id\<close>), \<open>slug TEXT UNIQUE\<close>, defaults for \<open>id\<close>, \<open>created_at\<close> and
  \<open>published\<close> (\<open>DEFAULT true\<close>); the created row is returned.
\<close>

definition posts_insert :: "new_post \<Rightarrow> backend \<Rightarrow> (error + post) \<times> backend" where
  "posts_insert np =
     round_trip (PostsInsert np) (\<lambda>s.
       if auth_uid s \<noteq> Some (np_author_id np) then (Inl (rls_denied ''posts''), s)
       else if np_slug np \<in> set (map p_slug (posts s))
       then (Inl (unique_violation ''posts_slug_key''), s)
       else
         (let row = \<lparr>p_id = next_id s, p_title = np_title np, p_slug = np_slug np,
                     p_content = np_content np, p_excerpt = np_excerpt np,
                     p_featured_image = np_featured_image np, p_author_id = np_author_id np,
                     p_created_at = clock s, p_published = True\<rparr>
          in (Inr row, s\<lparr>posts := posts s @ [row], next_id := Suc (next_id s)\<rparr>)))"

text \<open>
  \<open>from('tags').insert({ name, slug }).select().single()\<close>: policy \<open>tags_insert\<close>
  (\<open>auth.uid() IS NOT NULL\<close>), \<open>name TEXT UNIQUE\<close>, \<open>slug TEXT UNIQUE\<close>.
\<close>

definition tags_insert :: "string \<Rightarrow> string \<Rightarrow> backend \<Rightarrow> (error + tag) \<times> backend" where
  "tags_insert name slug =
     round_trip (TagsInsert name slug) (\<lambda>s.
       if auth_uid s = None then (Inl (rls_denied ''tags''), s)
       else if name \<in> set (map t_name (tags s)) then (Inl (unique_violation ''tags_name_key''), s)
       else if slug \<in> set (map t_slug (tags s)) then (Inl (unique_violation ''tags_slug_key''), s)
       else
         (let row = \<lparr>t_id = next_id s, t_name = name, t_slug = slug, t_created_at = clock s\<rparr>
          in (Inr row, s\<lparr>tags := tags s @ [row], next_id := Suc (next_id s)\<rparr>)))"

text \<open>
  \<open>from('post_tags').insert({ post_id, tag_id })\<close>: policy \<open>post_tags_all\<close>
  (\<open>auth.uid() IS NOT NULL\<close>), \<open>UNIQUE(post_id, tag_id)\<close>.
\<close>

definition post_tags_insert :: "nat \<Rightarrow> nat \<Rightarrow> backend \<Rightarrow> (error + unit) \<times> backend" where
  "post_tags_insert pid tid =
     round_trip (PostTagsInsert pid tid) (\<lambda>s.
       if auth_uid s = None then (Inl (rls_denied ''post_tags''), s)
       else if (pid, tid) \<in> set (map (\<lambda>l. (pt_post_id l, pt_tag_id l)) (post_tags s))
       then (Inl (unique_violation ''post_tags_post_id_tag_id_key''), s)
       else
         (let row = \<lparr>pt_id = next_id s, pt_post_id = pid, pt_tag_id = tid,
                     pt_created_at = clock s\<rparr>
          in (Inr (), s\<lparr>post_tags := post_tags s @ [row], next_id := Suc (next_id s)\<rparr>)))"

subsection \<open>Reads\<close>

text \<open>\<open>from('tags').select(...).eq('slug', slug).maybeSingle()\<close>; policy \<open>tags_select\<close> is \<open>true\<close>.\<close>

definition tags_select_by_slug :: "string \<Rightarrow> backend \<Rightarrow> (error + tag option) \<times> backend" where
  "tags_select_by_slug slug =
     round_trip (TagsSelectBySlug slug) (\<lambda>s.
       (maybeSingle (filter (\<lambda>t. t_slug t = slug) (tags s)), s))"

text \<open>
  \<open>from('posts').select(...).eq('published', true).order('created_at', { ascending: false })\<close>.
  The embedded \<open>profiles\<close> and \<open>post_tags\<close> columns of the result are left out.
\<close>

definition posts_select_published :: "backend \<Rightarrow> (error + post list) \<times> backend" where
  "posts_select_published =
     round_trip PostsSelectPublished (\<lambda>s.
       (Inr (rev (sort_key p_created_at
          (filter (\<lambda>p. posts_select_policy s p \<and> p_published p) (posts s)))), s))"

text \<open>\<open>from('posts').select(...).eq('slug', slug).eq('published', true).maybeSingle()\<close>.\<close>

definition posts_select_by_slug :: "string \<Rightarrow> backend \<Rightarrow> (error + post option) \<times> backend" where
  "posts_select_by_slug slug =
     round_trip (PostsSelectBySlug slug) (\<lambda>s.
       (maybeSingle
          (filter (\<lambda>p. posts_select_policy s p \<and> p_slug p = slug \<and> p_published p) (posts s)), s))"

text \<open>
  \<open>from('post_tags').select('posts (...)').eq('tag_id', tid)\<close>: one result row per link,
  whose embedded \<open>posts\<close> is the linked post if the select policy shows it and \<open>null\<close>
  otherwise.
\<close>

definition post_tags_select_by_tag :: "nat \<Rightarrow> backend \<Rightarrow> (error + post option list) \<times> backend" where
  "post_tags_select_by_tag tid =
     round_trip (PostTagsSelectByTag tid) (\<lambda>s.
       (Inr (map (\<lambda>l. find (\<lambda>p. p_id p = pt_post_id l \<and> posts_select_policy s p) (posts s))
               (filter (\<lambda>l. pt_tag_id l = tid) (post_tags s))), s))"

section \<open>Post creation (CreatePost.tsx)\<close>

record image_file =
  file_name :: string

text \<open>The four text inputs and the file input of the form (the component state).\<close>

record form =
  f_title :: string
  f_content :: string
  f_excerpt :: string
  f_tags :: string
  f_image :: "image_file option"

record validated =
  v_title :: string
  v_content :: string
  v_excerpt :: string
  v_tags :: string

text \<open>
  What the \<open>try\<close> block can throw: the \<open>ZodError\<close> of \<open>postSchema.parse\<close>, with the message
  of its first issue and those of the others, or an error a request returned.
\<close>

datatype exn = ZodError string "string list" | Thrown error

text \<open>
  \<open>postSchema\<close>: each field is trimmed, then its \<open>min\<close> and \<open>max\<close> checks run in the order
  written; the issues of all fields are collected in the order of the keys.  The form
  always passes four strings, so \<open>optional()\<close> never applies.
\<close>

definition postSchema_issues :: "form \<Rightarrow> string list" where
  "postSchema_issues f =
     (if length (trim (f_title f)) < 1 then [''Title is required''] else []) @
     (if length (trim (f_title f)) > 200 then [''Title must be less than 200 characters'']
      else []) @
     (if length (trim (f_content f)) < 1 then [''Content is required''] else []) @
     (if length (trim (f_content f)) > 50000 then [''Content is too long''] else []) @
     (if length (trim (f_excerpt f)) > 500 then [''Excerpt must be less than 500 characters'']
      else []) @
     (if length (trim (f_tags f)) > 200 then [''Tags must be less than 200 characters'']
      else [])"

definition postSchema_parse :: "form \<Rightarrow> exn + validated" where
  "postSchema_parse f =
     (case postSchema_issues f of
        m # ms \<Rightarrow> Inl (ZodError m ms)
      | [] \<Rightarrow> Inr \<lparr>v_title = trim (f_title f), v_content = trim (f_content f),
                   v_excerpt = trim (f_excerpt f), v_tags = trim (f_tags f)\<rparr>)"

text \<open>\<open>xs.pop()\<close> as used in a template string: the last element, \<open>undefined\<close> if there is none.\<close>

definition pop :: "string list \<Rightarrow> string" where
  "pop xs = (case rev xs of [] \<Rightarrow> ''undefined'' | x # _ \<Rightarrow> x)"

text \<open>Lines 54 to 71: the optional upload; \<open>now\<close> is the value of \<open>Date.now()\<close>.\<close>

definition upload_image ::
  "uid \<Rightarrow> nat \<Rightarrow> image_file option \<Rightarrow> backend \<Rightarrow> (error + string option) \<times> backend" where
  "upload_image user_id now image_opt s =
     (case image_opt of
        None \<Rightarrow> (Inr None, s)
      | Some img \<Rightarrow>
          (let fileExt = pop (split CHR ''.'' (file_name img));
               fileName = user_id @ ''/'' @ decimal now @ ''.'' @ fileExt
           in case storage_upload fileName s of
                (Inl uploadError, s') \<Rightarrow> (Inl uploadError, s')
              | (Inr _, s') \<Rightarrow> (Inr (Some (getPublicUrl s' fileName)), s')))"

text \<open>\<open>validationData.tags.split(',').map(t => t.trim()).filter(t => t)\<close>\<close>

definition tagNames :: "string \<Rightarrow> string list" where
  "tagNames ts = filter (\<lambda>t. t \<noteq> []) (map trim (split CHR '','' ts))"

text \<open>
  The body of the \<open>for\<close> loop, lines 95 to 119.  Only \<open>data\<close> of the lookup is read, so a
  failed lookup is a tag not found; the result of the link insert is not read at all.
\<close>

definition resolve_tag :: "nat \<Rightarrow> string \<Rightarrow> backend \<Rightarrow> (error + unit) \<times> backend" where
  "resolve_tag post_id tagName s =
     (let tagSlug = generateSlug tagName in
      case tags_select_by_slug tagSlug s of (found, s1) \<Rightarrow>
        (case (case found of Inl _ \<Rightarrow> None | Inr existingTag \<Rightarrow> existingTag) of
           Some existingTag \<Rightarrow>
             (case post_tags_insert post_id (t_id existingTag) s1 of (_, s2) \<Rightarrow> (Inr (), s2))
         | None \<Rightarrow>
             (case tags_insert tagName tagSlug s1 of
                (Inl tagError, s2) \<Rightarrow> (Inl tagError, s2)
              | (Inr newTag, s2) \<Rightarrow>
                  (case post_tags_insert post_id (t_id newTag) s2 of (_, s3) \<Rightarrow> (Inr (), s3)))))"

fun tag_loop :: "nat \<Rightarrow> string list \<Rightarrow> backend \<Rightarrow> (error + unit) \<times> backend" where
  "tag_loop post_id [] s = (Inr (), s)"
| "tag_loop post_id (tagName # rest) s =
     (case resolve_tag post_id tagName s of
        (Inl e, s') \<Rightarrow> (Inl e, s')
      | (Inr _, s') \<Rightarrow> tag_loop post_id rest s')"

text \<open>
  The \<open>try\<close> block after the parse, lines 54 to 124: \<open>Inl\<close> is the exception thrown,
  \<open>Inr\<close> the slug reached at the end of the block.
\<close>

definition submit_validated ::
  "uid \<Rightarrow> nat \<Rightarrow> image_file option \<Rightarrow> validated \<Rightarrow> backend \<Rightarrow> (exn + string) \<times> backend" where
  "submit_validated user_id now image_opt validationData s =
     (case upload_image user_id now image_opt s of
        (Inl uploadError, s1) \<Rightarrow> (Inl (Thrown uploadError), s1)
      | (Inr imageUrl, s1) \<Rightarrow>
          (let slug = generateSlug (v_title validationData);
               postExcerpt =
                 (if v_excerpt validationData \<noteq> [] then v_excerpt validationData
                  else take 200 (v_content validationData))
           in case posts_insert
                     \<lparr>np_title = v_title validationData, np_slug = slug,
                      np_content = v_content validationData, np_excerpt = postExcerpt,
                      np_featured_image = imageUrl, np_author_id = user_id\<rparr> s1 of
                (Inl postError, s2) \<Rightarrow> (Inl (Thrown postError), s2)
              | (Inr postData, s2) \<Rightarrow>
                  (if v_tags validationData \<noteq> [] then
                     (case tag_loop (p_id postData) (tagNames (v_tags validationData)) s2 of
                        (Inl tagError, s3) \<Rightarrow> (Inl (Thrown tagError), s3)
                      | (Inr _, s3) \<Rightarrow> (Inr slug, s3))
                   else (Inr slug, s2))))"

text \<open>The \<open>try\<close> block, lines 52 to 124: the parse of line 52, then the rest.\<close>

definition try_block :: "uid \<Rightarrow> nat \<Rightarrow> form \<Rightarrow> backend \<Rightarrow> (exn + string) \<times> backend" where
  "try_block user_id now f s =
     (case postSchema_parse f of
        Inl zodError \<Rightarrow> (Inl zodError, s)
      | Inr validationData \<Rightarrow> submit_validated user_id now (f_image f) validationData s)"

text \<open>What the user and the developer get to see.\<close>

datatype effect =
    SetLoading bool
  | ToastSuccess string
  | ToastError string
  | ConsoleError string error
  | Navigate string

text \<open>
  \<open>handleSubmit\<close>, lines 45 to 135: the guard on the signed-in user, the \<open>try\<close> block, the
  \<open>catch\<close> clause with its two branches, and \<open>finally\<close>.
\<close>

definition handleSubmit ::
  "uid option \<Rightarrow> nat \<Rightarrow> form \<Rightarrow> backend \<Rightarrow> effect list \<times> backend" where
  "handleSubmit user now f s =
     (case user of
        None \<Rightarrow> ([], s)
      | Some user_id \<Rightarrow>
          (case try_block user_id now f s of
             (Inr slug, s') \<Rightarrow>
               ([SetLoading True, ToastSuccess ''Post created successfully!'',
                 Navigate (''/posts/'' @ slug), SetLoading False], s')
           | (Inl (ZodError m ms), s') \<Rightarrow>
               ([SetLoading True, ToastError m, SetLoading False], s')
           | (Inl (Thrown error), s') \<Rightarrow>
               ([SetLoading True, ConsoleError ''Error creating post:'' error,
                 ToastError ''Failed to create post'', SetLoading False], s')))"

section \<open>Read paths (Home.tsx, PostDetail.tsx, TagPosts.tsx)\<close>

text \<open>
  Each page keeps its data in component state, fetches once when it is shown, and renders
  from the state.  \<open>console\<close> collects what \<open>console.error\<close> was given.
\<close>

record home_state =
  h_posts :: "post list"
  h_loading :: bool
  h_console :: "error list"

definition home_init :: home_state where
  "home_init = \<lparr>h_posts = [], h_loading = True, h_console = []\<rparr>"

text \<open>\<open>fetchPosts\<close>, Home.tsx lines 36 to 57.\<close>

definition fetchPosts :: "home_state \<Rightarrow> backend \<Rightarrow> home_state \<times> backend" where
  "fetchPosts v s =
     (case posts_select_published s of
        (Inl error, s') \<Rightarrow> (v\<lparr>h_loading := False, h_console := h_console v @ [error]\<rparr>, s')
      | (Inr data, s') \<Rightarrow> (v\<lparr>h_posts := data, h_loading := False\<rparr>, s'))"

record detail_state =
  d_post :: "post option"
  d_loading :: bool
  d_console :: "error list"

definition detail_init :: detail_state where
  "detail_init = \<lparr>d_post = None, d_loading = True, d_console = []\<rparr>"

text \<open>\<open>fetchPost\<close>, PostDetail.tsx lines 41 to 63.\<close>

definition fetchPost :: "string \<Rightarrow> detail_state \<Rightarrow> backend \<Rightarrow> detail_state \<times> backend" where
  "fetchPost slug v s =
     (case posts_select_by_slug slug s of
        (Inl error, s') \<Rightarrow> (v\<lparr>d_loading := False, d_console := d_console v @ [error]\<rparr>, s')
      | (Inr data, s') \<Rightarrow> (v\<lparr>d_post := data, d_loading := False\<rparr>, s'))"

text \<open>What PostDetail renders, lines 65 to 172: the three returns of the component.\<close>

datatype detail_page = DetailLoading | PostNotFound | Article post

definition render_detail :: "detail_state \<Rightarrow> detail_page" where
  "render_detail v =
     (if d_loading v then DetailLoading
      else case d_post v of None \<Rightarrow> PostNotFound | Some p \<Rightarrow> Article p)"

record tag_state =
  g_posts :: "post list"
  g_tagName :: string
  g_loading :: bool
  g_console :: "error list"

definition tag_init :: tag_state where
  "tag_init = \<lparr>g_posts = [], g_tagName = [], g_loading = True, g_console = []\<rparr>"

text \<open>
  \<open>fetchPostsByTag\<close>, TagPosts.tsx lines 35 to 73.  The \<open>filter\<close> of line 65 drops the
  result rows whose embedded post is \<open>null\<close>.
\<close>

definition fetchPostsByTag :: "string \<Rightarrow> tag_state \<Rightarrow> backend \<Rightarrow> tag_state \<times> backend" where
  "fetchPostsByTag tagSlug v s =
     (case tags_select_by_slug tagSlug s of
        (Inl tagError, s1) \<Rightarrow>
          (v\<lparr>g_loading := False, g_console := g_console v @ [tagError]\<rparr>, s1)
      | (Inr None, s1) \<Rightarrow> (v\<lparr>g_loading := False\<rparr>, s1)
      | (Inr (Some tagData), s1) \<Rightarrow>
          (case post_tags_select_by_tag (t_id tagData) s1 of
             (Inl postTagsError, s2) \<Rightarrow>
               (v\<lparr>g_tagName := t_name tagData, g_loading := False,
                  g_console := g_console v @ [postTagsError]\<rparr>, s2)
           | (Inr postTagsData, s2) \<Rightarrow>
               (v\<lparr>g_tagName := t_name tagData,
                  g_posts := concat (map (\<lambda>pt. case pt of None \<Rightarrow> [] | Some p \<Rightarrow> [p])
                                      postTagsData),
                  g_loading := False\<rparr>, s2)))"

text \<open>
  What TagPosts renders, lines 75 to 148: the loading screen, or a heading and below it
  either the line \<open>No posts found with this tag.\<close> or the cards of the posts.
\<close>

datatype tag_body = NoPostsFound | Cards "post list"

datatype tag_page = TagLoading | TagPage string tag_body

definition render_tag :: "tag_state \<Rightarrow> tag_page" where
  "render_tag v =
     (if g_loading v then TagLoading
      else TagPage
             (if g_tagName v \<noteq> [] then ''Posts tagged \"'' @ g_tagName v @ ''\"''
              else ''Tag not found'')
             (if length (g_posts v) = 0 then NoPostsFound else Cards (g_posts v)))"

section \<open>Vocabulary of the claims\<close>

text \<open>The requests whose error \<open>handleSubmit\<close> checks and throws.\<close>

fun is_checked :: "request \<Rightarrow> bool" where
  "is_checked (StorageUpload _) = True"
| "is_checked (PostsInsert _) = True"
| "is_checked (TagsInsert _ _) = True"
| "is_checked _ = False"

fun is_lookup :: "request \<Rightarrow> bool" where
  "is_lookup (TagsSelectBySlug _) = True"
| "is_lookup _ = False"

text \<open>The failed requests among those whose error is checked.\<close>

definition checked_failures ::
  "(request \<times> error option) list \<Rightarrow> (request \<times> error option) list" where
  "checked_failures tr = filter (\<lambda>(rq, r). is_checked rq \<and> r \<noteq> None) tr"

text \<open>
  The shape of the requests of a run with a given outcome: a run that ends without error
  has no failed checked request; a run that ends with the error \<open>e\<close> has exactly one, which
  is its last request and failed with \<open>e\<close>.
\<close>

definition run_shape :: "error option \<Rightarrow> (request \<times> error option) list \<Rightarrow> bool" where
  "run_shape outcome tr =
     (case outcome of
        None \<Rightarrow> checked_failures tr = []
      | Some e \<Rightarrow>
          tr \<noteq> [] \<and> snd (last tr) = Some e \<and> is_checked (fst (last tr)) \<and>
          checked_failures (butlast tr) = [])"

text \<open>What the \<open>catch\<close> clause does with an error that is not a \<open>ZodError\<close>.\<close>

definition failure_effects :: "error \<Rightarrow> effect list" where
  "failure_effects e =
     [SetLoading True, ConsoleError ''Error creating post:'' e,
      ToastError ''Failed to create post'', SetLoading False]"

text \<open>What the end of the \<open>try\<close> block does.\<close>

definition success_effects :: "string \<Rightarrow> effect list" where
  "success_effects slug =
     [SetLoading True, ToastSuccess ''Post created successfully!'',
      Navigate (''/posts/'' @ slug), SetLoading False]"

text \<open>The tag lookups among the requests of a run, in the order of issue.\<close>

definition lookups :: "(request \<times> error option) list \<Rightarrow> request list" where
  "lookups tr = filter is_lookup (map fst tr)"

text \<open>The tag inserts among the requests of a run, in the order of issue: name and slug.\<close>

fun inserted_tag :: "request \<Rightarrow> (string \<times> string) list" where
  "inserted_tag (TagsInsert name slug) = [(name, slug)]"
| "inserted_tag _ = []"

definition tag_inserts :: "(request \<times> error option) list \<Rightarrow> (string \<times> string) list" where
  "tag_inserts tr = concat (map (\<lambda>(rq, x). inserted_tag rq) tr)"

text \<open>
  The names of a list whose slug is new: not among the known slugs and not the slug of an
  earlier name of the list.
\<close>

fun fresh_names :: "string list \<Rightarrow> string list \<Rightarrow> string list" where
  "fresh_names known [] = []"
| "fresh_names known (n # ns) =
     (if generateSlug n \<in> set known then fresh_names known ns
      else n # fresh_names (generateSlug n # known) ns)"

text \<open>Nothing was taken back: every table still begins with the rows it had.\<close>

definition kept :: "backend \<Rightarrow> backend \<Rightarrow> bool" where
  "kept s s' =
     (take (length (posts s)) (posts s') = posts s \<and>
      take (length (tags s)) (tags s') = tags s \<and>
      take (length (post_tags s)) (post_tags s') = post_tags s \<and>
      take (length (objects s)) (objects s') = objects s)"

text \<open>The requests a run added to the trace.\<close>

definition issued :: "backend \<Rightarrow> backend \<Rightarrow> (request \<times> error option) list" where
  "issued s s' = drop (length (trace s)) (trace s')"

text \<open>The next request is answered by the tables, not by a fault.\<close>

definition answers :: "backend \<Rightarrow> bool" where
  "answers s = (case faults s of Some e # _ \<Rightarrow> False | _ \<Rightarrow> True)"

text \<open>The next two requests are answered by the tables.\<close>

definition answers_both :: "backend \<Rightarrow> bool" where
  "answers_both s = list_all (\<lambda>x. x = None) (take 2 (faults s))"

text \<open>The \<open>UNIQUE\<close> constraints of \<open>tags.slug\<close> and of \<open>post_tags(post_id, tag_id)\<close> hold.\<close>

definition unique_keys :: "backend \<Rightarrow> bool" where
  "unique_keys s =
     (distinct (map t_slug (tags s)) \<and>
      distinct (map (\<lambda>l. (pt_post_id l, pt_tag_id l)) (post_tags s)))"

text \<open>A step that takes nothing back and keeps the unique keys unique.\<close>

definition safe_step :: "backend \<Rightarrow> backend \<Rightarrow> bool" where
  "safe_step s s' = (kept s s' \<and> (unique_keys s \<longrightarrow> unique_keys s'))"

text \<open>No fault is pending: every coming request is answered by the tables.\<close>

definition no_faults :: "backend \<Rightarrow> bool" where
  "no_faults s = list_all (\<lambda>x. x = None) (faults s)"

text \<open>The links of a post to tags of a given slug.\<close>

definition links_for_slug :: "backend \<Rightarrow> nat \<Rightarrow> string \<Rightarrow> post_tag list" where
  "links_for_slug s pid slug =
     filter (\<lambda>l. pt_post_id l = pid \<and>
                 list_ex (\<lambda>t. t_id t = pt_tag_id l \<and> t_slug t = slug) (tags s))
       (post_tags s)"

text \<open>
  The tag names as the specification words them: the comma-separated entries of the
  input, each trimmed, the empty ones discarded.
\<close>

definition spec_tag_names :: "string \<Rightarrow> string list" where
  "spec_tag_names input = filter (\<lambda>t. t \<noteq> []) (map trim (split CHR '','' input))"

text \<open>
  An input that violates the constraints of the form: a title or content that is empty or
  too long after trimming, an excerpt or a tag list that is too long.
\<close>

definition spec_invalid :: "form \<Rightarrow> bool" where
  "spec_invalid f =
     (trim (f_title f) = [] \<or> 200 < length (trim (f_title f)) \<or>
      trim (f_content f) = [] \<or> 50000 < length (trim (f_content f)) \<or>
      500 < length (trim (f_excerpt f)) \<or> 200 < length (trim (f_tags f)))"

subsection \<open>Concrete inputs\<close>

text \<open>An empty database with the author signed in, and a form with a repeated tag.\<close>

definition demo_backend :: backend where
  "demo_backend =
     \<lparr>posts = [], tags = [], post_tags = [], objects = [], user_roles = [],
      auth_uid = Some ''u1'', project_url = ''https://project.example'', next_id = 0,
      clock = 0, faults = [], trace = []\<rparr>"

definition demo_valid :: validated where
  "demo_valid =
     \<lparr>v_title = ''Belfast Storm Warning'', v_content = ''Heavy rain is expected.'',
      v_excerpt = [], v_tags = ''News, news ,, Weather''\<rparr>"

definition demo_form :: form where
  "demo_form =
     \<lparr>f_title = ''Belfast Storm Warning'', f_content = '' Heavy rain is expected. '',
      f_excerpt = ''  '', f_tags = ''News, news ,, Weather'', f_image = None\<rparr>"

text \<open>A database with two published posts, a draft, a tag in use and a tag without posts.\<close>

definition demo_library :: backend where
  "demo_library =
     demo_backend
       \<lparr>posts :=
          [\<lparr>p_id = 10, p_title = ''Storm'', p_slug = ''storm'', p_content = ''Rain.'',
            p_excerpt = ''Rain.'', p_featured_image = None, p_author_id = ''u1'',
            p_created_at = 5, p_published = True\<rparr>,
           \<lparr>p_id = 11, p_title = ''Draft'', p_slug = ''draft'', p_content = ''Soon.'',
            p_excerpt = ''Soon.'', p_featured_image = None, p_author_id = ''u2'',
            p_created_at = 7, p_published = False\<rparr>,
           \<lparr>p_id = 12, p_title = ''Fair'', p_slug = ''fair'', p_content = ''Sun.'',
            p_excerpt = ''Sun.'', p_featured_image = None, p_author_id = ''u2'',
            p_created_at = 9, p_published = True\<rparr>],
        tags :=
          [\<lparr>t_id = 20, t_name = ''News'', t_slug = ''news'', t_created_at = 5\<rparr>,
           \<lparr>t_id = 21, t_name = ''Sport'', t_slug = ''sport'', t_created_at = 6\<rparr>],
        post_tags := [\<lparr>pt_id = 30, pt_post_id = 10, pt_tag_id = 20, pt_created_at = 5\<rparr>],
        auth_uid := None, next_id := 40, clock := 10\<rparr>"

subsection \<open>Slugs\<close>

definition is_alnum :: "char \<Rightarrow> bool" where
  "is_alnum c = (is_digit c \<or> is_upper c \<or> is_lower c)"

definition is_slug_char :: "char \<Rightarrow> bool" where
  "is_slug_char c = (is_digit c \<or> is_lower c \<or> c = CHR ''-'')"

definition leading_hyphen :: "string \<Rightarrow> bool" where
  "leading_hyphen s = (case s of [] \<Rightarrow> False | c # _ \<Rightarrow> c = CHR ''-'')"

definition trailing_hyphen :: "string \<Rightarrow> bool" where
  "trailing_hyphen s = leading_hyphen (rev s)"

abbreviation no_double :: "string \<Rightarrow> bool" where
  "no_double s \<equiv> successively (\<lambda>a b. \<not> (a = CHR ''-'' \<and> b = CHR ''-'')) s"

section \<open>Properties of the string functions\<close>

lemma set_trim_by: "c \<in> set (trim_by p s) \<Longrightarrow> c \<in> set s"
proof -
  assume "c \<in> set (trim_by p s)"
  then have "c \<in> set (dropWhile p (rev (dropWhile p s)))" by (simp add: trim_by_def)
  then have "c \<in> set (rev (dropWhile p s))" by (rule set_dropWhileD)
  then have "c \<in> set (dropWhile p s)" by simp
  then show ?thesis by (rule set_dropWhileD)
qed

lemma trim_by_none: "\<forall>c\<in>set s. \<not> p c \<Longrightarrow> trim_by p s = s"
proof -
  assume a: "\<forall>c\<in>set s. \<not> p c"
  have "dropWhile p s = s" using a by (cases s) auto
  moreover have "dropWhile p (rev s) = rev s"
    using a by (cases "rev s") (auto simp: rev_eq_Cons_iff)
  ultimately show ?thesis by (simp add: trim_by_def)
qed

lemma dropWhile_rev_prefix: "\<exists>t. w = rev (dropWhile p (rev w)) @ t"
proof -
  have "rev w = takeWhile p (rev w) @ dropWhile p (rev w)" by simp
  then have "rev (rev w) = rev (takeWhile p (rev w) @ dropWhile p (rev w))" by simp
  then have "w = rev (dropWhile p (rev w)) @ rev (takeWhile p (rev w))"
    by (simp only: rev_append rev_rev_ident)
  then show ?thesis by blast
qed

lemma trim_by_hd: "trim_by p s = c # t \<Longrightarrow> \<not> p c"
proof -
  assume a: "trim_by p s = c # t"
  obtain u where u: "dropWhile p s = rev (dropWhile p (rev (dropWhile p s))) @ u"
    using dropWhile_rev_prefix by blast
  then have e: "dropWhile p s = c # t @ u" using a by (simp add: trim_by_def)
  then have "dropWhile p s \<noteq> []" by simp
  then have "\<not> p (hd (dropWhile p s))" by (rule hd_dropWhile)
  with e show ?thesis by simp
qed

lemma trim_by_last: "rev (trim_by p s) = c # t \<Longrightarrow> \<not> p c"
proof -
  assume "rev (trim_by p s) = c # t"
  then have e: "dropWhile p (rev (dropWhile p s)) = c # t" by (simp add: trim_by_def)
  then have "dropWhile p (rev (dropWhile p s)) \<noteq> []" by simp
  then have "\<not> p (hd (dropWhile p (rev (dropWhile p s))))" by (rule hd_dropWhile)
  with e show ?thesis by simp
qed

lemma successively_dropWhile: "successively R xs \<Longrightarrow> successively R (dropWhile p xs)"
  by (induction xs) (auto simp: successively_Cons)

lemma no_double_rev: "no_double (rev s) = no_double s"
proof -
  have "(\<lambda>x y. \<not> (y = CHR ''-'' \<and> x = CHR ''-'')) = (\<lambda>a b. \<not> (a = CHR ''-'' \<and> b = CHR ''-''))"
    by (intro ext) blast
  then show ?thesis by (simp only: successively_rev)
qed

lemma no_double_trim_by: "no_double s \<Longrightarrow> no_double (trim_by p s)"
proof -
  assume "no_double s"
  then have "no_double (dropWhile p s)" by (rule successively_dropWhile)
  then have "no_double (rev (dropWhile p s))" by (simp only: no_double_rev)
  then have "no_double (dropWhile p (rev (dropWhile p s)))" by (rule successively_dropWhile)
  then show ?thesis by (simp only: trim_by_def no_double_rev)
qed

lemma set_collapse:
  "c \<in> set (collapse z) \<Longrightarrow> c = CHR ''-'' \<or> (c \<in> set z \<and> \<not> is_sep c)"
  by (induction z rule: collapse.induct) (auto split: if_splits dest: set_dropWhileD)

lemma collapse_hd: "collapse (dropWhile is_sep cs) = c # t \<Longrightarrow> c \<noteq> CHR ''-''"
proof (cases "dropWhile is_sep cs")
  case Nil
  assume "collapse (dropWhile is_sep cs) = c # t"
  then show ?thesis unfolding Nil by simp
next
  case (Cons d ds)
  assume a: "collapse (dropWhile is_sep cs) = c # t"
  from Cons have "dropWhile is_sep cs \<noteq> []" by simp
  then have "\<not> is_sep (hd (dropWhile is_sep cs))" by (rule hd_dropWhile)
  with Cons have "\<not> is_sep d" by simp
  with a Cons show ?thesis by (auto simp: is_sep_def)
qed

lemma no_double_collapse: "no_double (collapse z)"
proof (induction z rule: collapse.induct)
  case 1
  show ?case by simp
next
  case (2 c cs)
  show ?case
  proof (cases "is_sep c")
    case True
    with 2 have ih: "no_double (collapse (dropWhile is_sep cs))" by simp
    show ?thesis
    proof (cases "collapse (dropWhile is_sep cs)")
      case Nil
      with True show ?thesis by simp
    next
      case (Cons d ds)
      then have "d \<noteq> CHR ''-''" by (rule collapse_hd)
      with True ih Cons show ?thesis by simp
    qed
  next
    case False
    with 2 have ih: "no_double (collapse cs)" by simp
    from False have "c \<noteq> CHR ''-''" by (auto simp: is_sep_def)
    with False ih show ?thesis by (cases "collapse cs") auto
  qed
qed

lemma collapse_fixed:
  "\<forall>c\<in>set y. is_sep c \<longrightarrow> c = CHR ''-'' \<Longrightarrow> no_double y \<Longrightarrow> collapse y = y"
proof (induction y rule: collapse.induct)
  case 1
  show ?case by simp
next
  case (2 c cs)
  have nd: "no_double cs" using 2(4) by (cases cs) auto
  have tl: "\<forall>c\<in>set cs. is_sep c \<longrightarrow> c = CHR ''-''" using 2(3) by simp
  show ?case
  proof (cases "is_sep c")
    case True
    with 2(3) have c: "c = CHR ''-''" by simp
    have dw: "dropWhile is_sep cs = cs"
    proof (cases cs)
      case Nil
      then show ?thesis by simp
    next
      case (Cons d ds)
      with 2(4) c have "d \<noteq> CHR ''-''" by simp
      moreover have "is_sep d \<longrightarrow> d = CHR ''-''" using 2(3) Cons by simp
      ultimately have "\<not> is_sep d" by blast
      then show ?thesis using Cons by simp
    qed
    have "collapse (dropWhile is_sep cs) = dropWhile is_sep cs"
    proof (rule 2(1)[OF True])
      show "\<forall>c\<in>set (dropWhile is_sep cs). is_sep c \<longrightarrow> c = CHR ''-''"
        unfolding dw by (rule tl)
      show "no_double (dropWhile is_sep cs)" unfolding dw by (rule nd)
    qed
    then have ih: "collapse cs = cs" by (simp only: dw)
    have "collapse (c # cs) = CHR ''-'' # collapse (dropWhile is_sep cs)"
      using True by simp
    then show ?thesis by (simp only: dw ih c)
  next
    case False
    have ih: "collapse cs = cs" by (rule 2(2)[OF False tl nd])
    have "collapse (c # cs) = c # collapse cs" using False by simp
    then show ?thesis by (simp only: ih)
  qed
qed

lemma collapse_all_sep: "\<forall>c\<in>set z. is_sep c \<Longrightarrow> collapse z = [] \<or> collapse z = ''-''"
proof (cases z)
  case Nil
  then show ?thesis by simp
next
  case (Cons c cs)
  assume a: "\<forall>c\<in>set z. is_sep c"
  with Cons have d: "dropWhile is_sep cs = []" by simp
  have "collapse (dropWhile is_sep cs) = []" unfolding d by simp
  with a Cons show ?thesis by simp
qed

subsection \<open>Character codes\<close>

lemma of_char_toLowerCase_char:
  "(of_char (toLowerCase_char c) :: nat) =
     (if is_upper c \<or>
         (192 \<le> (of_char c :: nat) \<and> (of_char c :: nat) \<le> 222 \<and> (of_char c :: nat) \<noteq> 215)
      then of_char c + 32 else of_char c)"
  by (simp add: toLowerCase_char_def is_upper_def)

lemma hyphen_code: "(c = CHR ''-'') = (of_char c = (45::nat))"
proof -
  have "(of_char c = (of_char (CHR ''-'') :: nat)) = (c = CHR ''-'')" by (rule of_char_eq_iff)
  then show ?thesis by simp
qed

lemma underscore_code: "(c = CHR ''_'') = (of_char c = (95::nat))"
proof -
  have "(of_char c = (of_char (CHR ''_'') :: nat)) = (c = CHR ''_'')" by (rule of_char_eq_iff)
  then show ?thesis by simp
qed

lemmas char_class_defs =
  is_space_def is_digit_def is_upper_def is_lower_def is_word_def is_sep_def
  is_alnum_def is_slug_char_def hyphen_code underscore_code

lemma is_alnum_toLowerCase_char: "is_alnum (toLowerCase_char c) = is_alnum c"
  unfolding is_alnum_def is_digit_def is_lower_def is_upper_def of_char_toLowerCase_char
  by auto

lemma word_toLowerCase_char:
  "is_word (toLowerCase_char c) \<Longrightarrow> \<not> is_sep (toLowerCase_char c) \<Longrightarrow>
   is_slug_char (toLowerCase_char c)"
  unfolding char_class_defs of_char_toLowerCase_char by (auto split: if_splits)

lemma slug_char_fixed: "is_slug_char c \<Longrightarrow> toLowerCase_char c = c"
  unfolding char_class_defs toLowerCase_char_def by auto

lemma slug_char_sep: "is_slug_char c \<Longrightarrow> is_sep c \<Longrightarrow> c = CHR ''-''"
  unfolding char_class_defs by auto

lemma slug_char_word: "is_slug_char c \<Longrightarrow> is_word c \<or> c = CHR ''-''"
  unfolding char_class_defs by auto

lemma slug_char_not_space: "is_slug_char c \<Longrightarrow> \<not> is_space c"
  unfolding char_class_defs by auto

subsection \<open>The shape of a generated slug\<close>

lemma generateSlug_chars: "c \<in> set (generateSlug x) \<Longrightarrow> is_slug_char c"
proof -
  let ?F = "filter (\<lambda>c. is_word c \<or> is_space c \<or> c = CHR ''-'') (trim (toLowerCase x))"
  assume "c \<in> set (generateSlug x)"
  then have "c \<in> set (collapse ?F)" unfolding generateSlug_def by (rule set_trim_by)
  then have "c = CHR ''-'' \<or> (c \<in> set ?F \<and> \<not> is_sep c)" by (rule set_collapse)
  then show ?thesis
  proof
    assume "c = CHR ''-''"
    then show ?thesis by (simp add: is_slug_char_def)
  next
    assume a: "c \<in> set ?F \<and> \<not> is_sep c"
    then have w: "is_word c" by (auto simp: is_sep_def)
    from a have "c \<in> set (trim (toLowerCase x))" by simp
    then have "c \<in> set (toLowerCase x)" unfolding trim_def by (rule set_trim_by)
    then obtain d where "c = toLowerCase_char d" by (auto simp: toLowerCase_def)
    with w a show ?thesis by (simp add: word_toLowerCase_char)
  qed
qed

lemma generateSlug_no_double: "no_double (generateSlug x)"
  unfolding generateSlug_def by (rule no_double_trim_by) (rule no_double_collapse)

lemma generateSlug_leading: "\<not> leading_hyphen (generateSlug x)"
proof (cases "generateSlug x")
  case Nil
  then show ?thesis by (simp add: leading_hyphen_def)
next
  case (Cons c t)
  then have "\<not> is_hyphen c" unfolding generateSlug_def by (rule trim_by_hd)
  with Cons show ?thesis by (simp add: leading_hyphen_def is_hyphen_def)
qed

lemma generateSlug_trailing: "\<not> trailing_hyphen (generateSlug x)"
proof (cases "rev (generateSlug x)")
  case Nil
  then show ?thesis by (simp add: trailing_hyphen_def leading_hyphen_def)
next
  case (Cons c t)
  then have "\<not> is_hyphen c" unfolding generateSlug_def by (rule trim_by_last)
  with Cons show ?thesis by (simp add: trailing_hyphen_def leading_hyphen_def is_hyphen_def)
qed

lemma trim_by_ends:
  assumes "\<not> leading_hyphen y" "\<not> trailing_hyphen y"
  shows "trim_by is_hyphen y = y"
proof -
  have a: "dropWhile is_hyphen y = y"
    using assms(1) by (cases y) (auto simp: leading_hyphen_def is_hyphen_def)
  have b: "dropWhile is_hyphen (rev y) = rev y"
    using assms(2)
    by (cases "rev y") (auto simp: trailing_hyphen_def leading_hyphen_def is_hyphen_def)
  show ?thesis by (simp add: trim_by_def a b)
qed

lemma slug_form_fixed:
  assumes ch: "\<forall>c\<in>set y. is_slug_char c" and nd: "no_double y"
    and le: "\<not> leading_hyphen y" and tr: "\<not> trailing_hyphen y"
  shows "generateSlug y = y"
proof -
  have 1: "toLowerCase y = y"
    unfolding toLowerCase_def using ch by (simp add: slug_char_fixed map_idI)
  have 2: "trim y = y"
    unfolding trim_def using ch by (intro trim_by_none) (simp add: slug_char_not_space)
  have 3: "filter (\<lambda>c. is_word c \<or> is_space c \<or> c = CHR ''-'') y = y"
    using ch slug_char_word by (intro filter_True) blast
  have 4: "collapse y = y"
    using ch nd by (intro collapse_fixed) (simp_all add: slug_char_sep)
  have 5: "trim_by is_hyphen y = y" using le tr by (rule trim_by_ends)
  show ?thesis by (simp only: generateSlug_def 1 2 3 4 5)
qed

lemma generateSlug_idem: "generateSlug (generateSlug x) = generateSlug x"
proof (rule slug_form_fixed)
  show "\<forall>c\<in>set (generateSlug x). is_slug_char c" using generateSlug_chars by blast
  show "no_double (generateSlug x)" by (rule generateSlug_no_double)
  show "\<not> leading_hyphen (generateSlug x)" by (rule generateSlug_leading)
  show "\<not> trailing_hyphen (generateSlug x)" by (rule generateSlug_trailing)
qed

lemma generateSlug_degenerate:
  assumes "\<forall>c\<in>set x. \<not> is_alnum c"
  shows "generateSlug x = []"
proof -
  let ?F = "filter (\<lambda>c. is_word c \<or> is_space c \<or> c = CHR ''-'') (trim (toLowerCase x))"
  have "\<forall>c\<in>set ?F. is_sep c"
  proof
    fix c assume a: "c \<in> set ?F"
    then have "c \<in> set (trim (toLowerCase x))" by simp
    then have "c \<in> set (toLowerCase x)" unfolding trim_def by (rule set_trim_by)
    then obtain d where d: "c = toLowerCase_char d" "d \<in> set x"
      by (auto simp: toLowerCase_def)
    with assms have "\<not> is_alnum c" by (simp add: is_alnum_toLowerCase_char)
    moreover from a have "is_word c \<or> is_space c \<or> c = CHR ''-''" by simp
    ultimately show "is_sep c"
      unfolding is_sep_def is_word_def is_alnum_def by auto
  qed
  then have "collapse ?F = [] \<or> collapse ?F = ''-''" by (rule collapse_all_sep)
  then show ?thesis
    unfolding generateSlug_def by (auto simp: trim_by_def is_hyphen_def)
qed

lemma in_dropWhile: "c \<in> set s \<Longrightarrow> \<not> p c \<Longrightarrow> c \<in> set (dropWhile p s)"
  by (induction s) auto

lemma in_trim_by: "c \<in> set s \<Longrightarrow> \<not> p c \<Longrightarrow> c \<in> set (trim_by p s)"
  unfolding trim_by_def by (simp add: in_dropWhile)

lemma in_collapse: "c \<in> set z \<Longrightarrow> \<not> is_sep c \<Longrightarrow> c \<in> set (collapse z)"
  by (induction z rule: collapse.induct) (auto simp: in_dropWhile)

lemma alnum_not_sep: "is_alnum c \<Longrightarrow> is_word c \<and> \<not> is_sep c \<and> \<not> is_space c \<and> \<not> is_hyphen c"
  unfolding char_class_defs is_hyphen_def by auto

lemma generateSlug_keeps:
  assumes "c \<in> set (toLowerCase x)" and "is_alnum c"
  shows "c \<in> set (generateSlug x)"
proof -
  note a = alnum_not_sep[OF assms(2)]
  from assms(1) a have "c \<in> set (trim (toLowerCase x))"
    unfolding trim_def by (simp add: in_trim_by)
  with a have "c \<in> set (filter (\<lambda>c. is_word c \<or> is_space c \<or> c = CHR ''-'')
      (trim (toLowerCase x)))" by simp
  with a have "c \<in> set (collapse (filter (\<lambda>c. is_word c \<or> is_space c \<or> c = CHR ''-'')
      (trim (toLowerCase x))))" by (simp add: in_collapse)
  with a show ?thesis unfolding generateSlug_def by (simp add: in_trim_by)
qed

lemma generateSlug_empty_iff:
  "(generateSlug x = []) = (\<forall>c\<in>set (toLowerCase x). \<not> is_alnum c)"
proof
  assume e: "generateSlug x = []"
  show "\<forall>c\<in>set (toLowerCase x). \<not> is_alnum c"
  proof
    fix c assume "c \<in> set (toLowerCase x)"
    then show "\<not> is_alnum c" using generateSlug_keeps[of c x] e by auto
  qed
next
  assume a: "\<forall>c\<in>set (toLowerCase x). \<not> is_alnum c"
  have "\<forall>c\<in>set x. \<not> is_alnum c"
  proof
    fix c assume "c \<in> set x"
    then have "toLowerCase_char c \<in> set (toLowerCase x)" by (simp add: toLowerCase_def)
    with a have "\<not> is_alnum (toLowerCase_char c)" by blast
    then show "\<not> is_alnum c" by (simp add: is_alnum_toLowerCase_char)
  qed
  then show "generateSlug x = []" by (rule generateSlug_degenerate)
qed

section \<open>Claims about slug generation\<close>

text \<open>
  C4.  For every input string the slug generator returns a string (the function is total)
  in which every character is a digit, a lower-case letter \<open>a\<close> to \<open>z\<close> or a hyphen: the
  slug is lower case (it has no upper-case letter, and lower-casing it changes nothing) and
  consists of word characters and hyphens only.  It does not begin and does not end with a
  hyphen.  It is the empty string exactly for degenerate input: text that, once lower-cased,
  has no ASCII letter and no digit, such as pure punctuation or white space.
\<close>

theorem generateSlug_contract:
  "(\<forall>c\<in>set (generateSlug x). is_digit c \<or> is_lower c \<or> c = CHR ''-'') \<and>
   (\<forall>c\<in>set (generateSlug x). \<not> is_upper c) \<and>
   toLowerCase (generateSlug x) = generateSlug x \<and>
   \<not> leading_hyphen (generateSlug x) \<and>
   \<not> trailing_hyphen (generateSlug x) \<and>
   (generateSlug x = [] \<longleftrightarrow> (\<forall>c\<in>set (toLowerCase x). \<not> is_alnum c))"
proof -
  have ch: "\<forall>c\<in>set (generateSlug x). is_digit c \<or> is_lower c \<or> c = CHR ''-''"
    using generateSlug_chars[of _ x] by (simp add: is_slug_char_def)
  have "\<forall>c\<in>set (generateSlug x). \<not> is_upper c"
  proof
    fix c assume "c \<in> set (generateSlug x)"
    then have "is_slug_char c" by (rule generateSlug_chars)
    then show "\<not> is_upper c" unfolding char_class_defs by auto
  qed
  moreover have "toLowerCase (generateSlug x) = generateSlug x"
    unfolding toLowerCase_def
    by (rule map_idI) (simp add: generateSlug_chars slug_char_fixed)
  ultimately show ?thesis
    using ch generateSlug_leading generateSlug_trailing generateSlug_empty_iff by blast
qed

theorem generateSlug_contract_witness:
  "generateSlug ''Ab_c'' = ''ab-c'' \<and>
   list_all (\<lambda>c. is_digit c \<or> is_lower c \<or> c = CHR ''-'') (generateSlug ''Ab_c'') \<and>
   list_all (\<lambda>c. \<not> is_upper c) (generateSlug ''Ab_c'') \<and>
   list_all (\<lambda>c. \<not> is_alnum c) (toLowerCase ''?! ...'') \<and> generateSlug ''?! ...'' = [] \<and>
   list_ex is_alnum (toLowerCase ''Ab_c'') \<and> generateSlug ''Ab_c'' \<noteq> []"
proof -
  have h: "\<forall>c\<in>set (toLowerCase ''?! ...''). \<not> is_alnum c"
    by (simp add: toLowerCase_def toLowerCase_char_def is_alnum_def is_digit_def is_upper_def
        is_lower_def)
  have k: "list_ex is_alnum (toLowerCase ''Ab_c'')" by code_simp
  have s: "generateSlug ''Ab_c'' = ''ab-c''" by code_simp
  from generateSlug_contract [of "''?! ...''"] h have 1: "generateSlug ''?! ...'' = []"
    by blast
  from generateSlug_contract [of "''Ab_c''"]
  have 2: "list_all (\<lambda>c. is_digit c \<or> is_lower c \<or> c = CHR ''-'') (generateSlug ''Ab_c'')"
    "list_all (\<lambda>c. \<not> is_upper c) (generateSlug ''Ab_c'')"
    unfolding list_all_iff by blast+
  from s have 3: "generateSlug ''Ab_c'' \<noteq> []" by simp
  from h have 4: "list_all (\<lambda>c. \<not> is_alnum c) (toLowerCase ''?! ...'')"
    unfolding list_all_iff .
  from 1 2 3 4 k s show ?thesis by blast
qed

text \<open>
  C5.  Slug generation is a function of its input and is idempotent: applying the generator
  to its own output returns that output.  \<open>Local News!\<close> gives \<open>local-news\<close>, two spaces give
  the empty string, and \<open>Belfast Storm Warning\<close> gives \<open>belfast-storm-warning\<close>.
\<close>

theorem generateSlug_idempotent:
  "generateSlug (generateSlug x) = generateSlug x \<and>
   generateSlug ''Local News!'' = ''local-news'' \<and>
   generateSlug ''  '' = '''' \<and>
   generateSlug ''Belfast Storm Warning'' = ''belfast-storm-warning''"
proof -
  have "generateSlug ''Local News!'' = ''local-news''" by code_simp
  moreover have "generateSlug ''  '' = ''''" by code_simp
  moreover have "generateSlug ''Belfast Storm Warning'' = ''belfast-storm-warning''"
    by code_simp
  ultimately show ?thesis using generateSlug_idem by simp
qed

theorem generateSlug_idempotent_witness:
  "generateSlug (generateSlug ''Hello, World'') = generateSlug ''Hello, World''"
  using generateSlug_idempotent [of "''Hello, World''"] by blast

section \<open>Properties of the requests\<close>

lemma round_trip_cases:
  assumes "round_trip rq h s = (r, s')"
  shows "(\<exists>e fs. faults s = Some e # fs \<and> r = Inl e \<and>
            s' = s\<lparr>faults := fs, trace := trace s @ [(rq, Some e)], clock := Suc (clock s)\<rparr>) \<or>
         (\<exists>s1 s2. answers s \<and>
            ((faults s = [] \<and> s1 = s) \<or> (\<exists>fs. faults s = None # fs \<and> s1 = s\<lparr>faults := fs\<rparr>)) \<and>
            h s1 = (r, s2) \<and>
            s' = s2\<lparr>trace := trace s2 @ [(rq, error_of r)], clock := Suc (clock s2)\<rparr>)"
  using assms
  by (auto simp: round_trip_def answers_def error_of_def
      split: list.splits option.splits prod.splits)

lemma round_trip_read:
  assumes "round_trip rq (\<lambda>t. (q t, t)) s = (r, s')"
    and q: "\<And>fs. q (s\<lparr>faults := fs\<rparr>) = q s"
  shows "posts s' = posts s \<and> tags s' = tags s \<and> post_tags s' = post_tags s \<and>
         objects s' = objects s \<and> user_roles s' = user_roles s \<and>
         (answers s \<longrightarrow> r = q s) \<and>
         (r = q s \<or> (\<exists>e fs. r = Inl e \<and> faults s = Some e # fs)) \<and>
         (no_faults s \<longrightarrow> no_faults s') \<and>
         trace s' = trace s @ [(rq, error_of r)]"
proof -
  from round_trip_cases[OF assms(1)] show ?thesis
  proof (elim disjE exE conjE)
    fix e fs
    assume "faults s = Some e # fs" "r = Inl e"
      "s' = s\<lparr>faults := fs, trace := trace s @ [(rq, Some e)], clock := Suc (clock s)\<rparr>"
    then show ?thesis by (simp add: answers_def error_of_def no_faults_def)
  next
    fix s1 s2
    assume "answers s" "(q s1, s1) = (r, s2)"
      "s' = s2\<lparr>trace := trace s2 @ [(rq, error_of r)], clock := Suc (clock s2)\<rparr>"
      and "faults s = []" "s1 = s"
    then show ?thesis by (auto simp: no_faults_def)
  next
    fix s1 s2 fs
    assume "answers s" "(q s1, s1) = (r, s2)"
      "s' = s2\<lparr>trace := trace s2 @ [(rq, error_of r)], clock := Suc (clock s2)\<rparr>"
      and "faults s = None # fs" "s1 = s\<lparr>faults := fs\<rparr>"
    then show ?thesis using q[of fs] by (auto simp: no_faults_def)
  qed
qed

lemma tags_insert_effect:
  assumes "tags_insert n sl s = (r, s')"
  shows "posts s' = posts s \<and> post_tags s' = post_tags s \<and> objects s' = objects s \<and>
         trace s' = trace s @ [(TagsInsert n sl, error_of r)] \<and>
         ((\<exists>e. r = Inl e \<and> tags s' = tags s) \<or>
          (\<exists>row. r = Inr row \<and> t_name row = n \<and> t_slug row = sl \<and>
             sl \<notin> set (map t_slug (tags s)) \<and> tags s' = tags s @ [row]))"
  using round_trip_cases[OF assms[unfolded tags_insert_def]]
  by (auto simp: Let_def error_of_def split: if_splits)

lemma post_tags_insert_effect:
  assumes "post_tags_insert p t s = (r, s')"
  shows "posts s' = posts s \<and> tags s' = tags s \<and> objects s' = objects s \<and>
         trace s' = trace s @ [(PostTagsInsert p t, error_of r)] \<and>
         (post_tags s' = post_tags s \<or>
          (\<exists>row. pt_post_id row = p \<and> pt_tag_id row = t \<and>
             (p, t) \<notin> set (map (\<lambda>l. (pt_post_id l, pt_tag_id l)) (post_tags s)) \<and>
             post_tags s' = post_tags s @ [row]))"
  using round_trip_cases[OF assms[unfolded post_tags_insert_def]]
  by (auto simp: Let_def error_of_def split: if_splits)

lemma storage_upload_effect:
  assumes "storage_upload path s = (r, s')"
  shows "posts s' = posts s \<and> tags s' = tags s \<and> post_tags s' = post_tags s \<and>
         trace s' = trace s @ [(StorageUpload path, error_of r)] \<and>
         (objects s' = objects s \<or> objects s' = objects s @ [path])"
  using round_trip_cases[OF assms[unfolded storage_upload_def]]
  by (auto simp: error_of_def split: if_splits)

lemma posts_insert_effect:
  assumes "posts_insert np s = (r, s')"
  shows "tags s' = tags s \<and> post_tags s' = post_tags s \<and> objects s' = objects s \<and>
         trace s' = trace s @ [(PostsInsert np, error_of r)] \<and>
         ((\<exists>e. r = Inl e \<and> posts s' = posts s) \<or>
          (\<exists>row. r = Inr row \<and> p_title row = np_title np \<and> p_slug row = np_slug np \<and>
             p_content row = np_content np \<and> p_excerpt row = np_excerpt np \<and>
             p_featured_image row = np_featured_image np \<and> p_author_id row = np_author_id np \<and>
             p_published row \<and> posts s' = posts s @ [row]))"
  using round_trip_cases[OF assms[unfolded posts_insert_def]]
  by (auto simp: Let_def error_of_def split: if_splits)

lemma tags_select_by_slug_effect:
  assumes "tags_select_by_slug sl s = (r, s')"
  shows "posts s' = posts s \<and> tags s' = tags s \<and> post_tags s' = post_tags s \<and>
         objects s' = objects s \<and>
         (answers s \<longrightarrow> r = maybeSingle (filter (\<lambda>t. t_slug t = sl) (tags s))) \<and>
         (r = maybeSingle (filter (\<lambda>t. t_slug t = sl) (tags s)) \<or>
          (\<exists>e fs. r = Inl e \<and> faults s = Some e # fs)) \<and>
         (no_faults s \<longrightarrow> no_faults s') \<and>
         trace s' = trace s @ [(TagsSelectBySlug sl, error_of r)]"
  using round_trip_read[OF assms[unfolded tags_select_by_slug_def]] by simp

lemma maybeSingle_Some: "maybeSingle rows = Inr (Some t) \<Longrightarrow> rows = [t]"
  by (auto simp: maybeSingle_def split: list.splits)

subsection \<open>Tables only grow, and the unique keys stay unique\<close>

lemma take_prefix_conv: "(take (length a) b = a) = (\<exists>c. b = a @ c)"
proof
  assume "take (length a) b = a"
  then have "b = a @ drop (length a) b" by (metis append_take_drop_id)
  then show "\<exists>c. b = a @ c" ..
next
  assume "\<exists>c. b = a @ c"
  then show "take (length a) b = a" by auto
qed

lemma kept_refl: "kept s s"
  by (simp add: kept_def)

lemma kept_trans: "kept s s1 \<Longrightarrow> kept s1 s2 \<Longrightarrow> kept s s2"
  unfolding kept_def take_prefix_conv by (elim conjE exE) simp

lemma safe_step_refl: "safe_step s s"
  by (simp add: safe_step_def kept_refl)

lemma safe_step_trans: "safe_step s s1 \<Longrightarrow> safe_step s1 s2 \<Longrightarrow> safe_step s s2"
  unfolding safe_step_def using kept_trans by blast

lemma tags_insert_safe: "tags_insert n sl s = (r, s') \<Longrightarrow> safe_step s s'"
  by (drule tags_insert_effect) (auto simp: safe_step_def kept_def unique_keys_def)

lemma post_tags_insert_safe: "post_tags_insert p t s = (r, s') \<Longrightarrow> safe_step s s'"
  by (drule post_tags_insert_effect) (auto simp: safe_step_def kept_def unique_keys_def)

lemma storage_upload_safe: "storage_upload path s = (r, s') \<Longrightarrow> safe_step s s'"
  by (drule storage_upload_effect) (auto simp: safe_step_def kept_def unique_keys_def)

lemma posts_insert_safe: "posts_insert np s = (r, s') \<Longrightarrow> safe_step s s'"
  by (drule posts_insert_effect) (auto simp: safe_step_def kept_def unique_keys_def)

lemma tags_select_by_slug_safe: "tags_select_by_slug sl s = (r, s') \<Longrightarrow> safe_step s s'"
  by (drule tags_select_by_slug_effect) (auto simp: safe_step_def kept_def unique_keys_def)

subsection \<open>The shape of a trace\<close>

lemma checked_failures_append:
  "checked_failures (a @ b) = checked_failures a @ checked_failures b"
  by (simp add: checked_failures_def)

lemma lookups_append: "lookups (a @ b) = lookups a @ lookups b"
  by (simp add: lookups_def)

lemma run_shape_append:
  assumes "run_shape None tr1" "run_shape outcome tr2"
  shows "run_shape outcome (tr1 @ tr2)"
proof (cases outcome)
  case None
  with assms show ?thesis by (simp add: run_shape_def checked_failures_append)
next
  case (Some e)
  with assms(2) have ne: "tr2 \<noteq> []" by (simp add: run_shape_def)
  then have "butlast (tr1 @ tr2) = tr1 @ butlast tr2" by (simp add: butlast_append)
  with assms Some ne show ?thesis by (simp add: run_shape_def checked_failures_append)
qed

lemma run_shape_unchecked: "\<not> is_checked rq \<Longrightarrow> run_shape None [(rq, x)]"
  by (simp add: run_shape_def checked_failures_def)

lemma run_shape_checked: "is_checked rq \<Longrightarrow> run_shape x [(rq, x)]"
  by (cases x) (simp_all add: run_shape_def checked_failures_def)

lemma run_shape_Nil: "run_shape None []"
  by (simp add: run_shape_def checked_failures_def)

lemma run_shape_last:
  assumes "run_shape outcome tr" "is_checked rq" "(rq, Some e) \<in> set tr"
  shows "outcome = Some e \<and> last tr = (rq, Some e)"
proof (cases outcome)
  case None
  from assms(2,3) have "(rq, Some e) \<in> set (checked_failures tr)"
    by (simp add: checked_failures_def)
  with assms(1) None show ?thesis by (simp add: run_shape_def)
next
  case (Some e')
  with assms(1) have ne: "tr \<noteq> []" and l: "snd (last tr) = Some e'"
    and bl: "checked_failures (butlast tr) = []" by (simp_all add: run_shape_def)
  from assms(2,3) have cf: "(rq, Some e) \<in> set (checked_failures tr)"
    by (simp add: checked_failures_def)
  from ne have "tr = butlast tr @ [last tr]" by simp
  then have "checked_failures tr = checked_failures (butlast tr) @ checked_failures [last tr]"
    by (metis checked_failures_append)
  with bl cf have "(rq, Some e) \<in> set (checked_failures [last tr])" by simp
  then have "last tr = (rq, Some e)"
    by (auto simp: checked_failures_def split: if_splits)
  with l Some show ?thesis by simp
qed

section \<open>Properties of post creation\<close>

lemma resolve_tag_run:
  assumes "resolve_tag pid n s = (r, s')"
  shows "\<exists>tr. trace s' = trace s @ tr \<and> run_shape (error_of r) tr \<and>
           lookups tr = [TagsSelectBySlug (generateSlug n)] \<and>
           safe_step s s' \<and> posts s' = posts s \<and> objects s' = objects s"
proof -
  let ?g = "generateSlug n"
  obtain found s1 where l: "tags_select_by_slug ?g s = (found, s1)"
    by (cases "tags_select_by_slug ?g s") auto
  note e1 = tags_select_by_slug_effect[OF l]
  note p1 = tags_select_by_slug_safe[OF l]
  have sh1: "run_shape None [(TagsSelectBySlug ?g, error_of found)]"
    by (rule run_shape_unchecked) simp
  show ?thesis
  proof (cases "case found of Inl _ \<Rightarrow> None | Inr existingTag \<Rightarrow> existingTag")
    case (Some t)
    obtain x s2 where k: "post_tags_insert pid (t_id t) s1 = (x, s2)"
      by (cases "post_tags_insert pid (t_id t) s1") auto
    note e2 = post_tags_insert_effect[OF k]
    from assms l Some k have r: "r = Inr ()" "s' = s2" by (simp_all add: resolve_tag_def)
    let ?tr = "[(TagsSelectBySlug ?g, error_of found)] @ [(PostTagsInsert pid (t_id t), error_of x)]"
    have "run_shape None [(PostTagsInsert pid (t_id t), error_of x)]"
      by (rule run_shape_unchecked) simp
    with sh1 have "run_shape None ?tr" by (rule run_shape_append)
    then have "run_shape (error_of r) ?tr" using r by (simp add: error_of_def)
    moreover have "trace s' = trace s @ ?tr" using e1 e2 r by simp
    moreover have "lookups ?tr = [TagsSelectBySlug ?g]" by (simp add: lookups_def)
    moreover have "safe_step s s'"
      using p1 post_tags_insert_safe[OF k] r by (blast intro: safe_step_trans)
    moreover have "posts s' = posts s" "objects s' = objects s" using e1 e2 r by simp_all
    ultimately show ?thesis by blast
  next
    case None
    obtain y s2 where i: "tags_insert n ?g s1 = (y, s2)"
      by (cases "tags_insert n ?g s1") auto
    note e2 = tags_insert_effect[OF i]
    note p2 = tags_insert_safe[OF i]
    have sh2: "run_shape (error_of y) [(TagsInsert n ?g, error_of y)]"
      by (rule run_shape_checked) simp
    show ?thesis
    proof (cases y)
      case (Inl e)
      from assms l None i Inl have r: "r = Inl e" "s' = s2" by (simp_all add: resolve_tag_def)
      let ?tr = "[(TagsSelectBySlug ?g, error_of found)] @ [(TagsInsert n ?g, error_of y)]"
      have "run_shape (error_of y) ?tr" using sh1 sh2 by (rule run_shape_append)
      then have "run_shape (error_of r) ?tr" using r Inl by (simp add: error_of_def)
      moreover have "trace s' = trace s @ ?tr" using e1 e2 r by simp
      moreover have "lookups ?tr = [TagsSelectBySlug ?g]" by (simp add: lookups_def)
      moreover have "safe_step s s'" using p1 p2 r by (blast intro: safe_step_trans)
      moreover have "posts s' = posts s" "objects s' = objects s" using e1 e2 r by simp_all
      ultimately show ?thesis by blast
    next
      case (Inr t)
      obtain x s3 where k: "post_tags_insert pid (t_id t) s2 = (x, s3)"
        by (cases "post_tags_insert pid (t_id t) s2") auto
      note e3 = post_tags_insert_effect[OF k]
      from assms l None i Inr k have r: "r = Inr ()" "s' = s3" by (simp_all add: resolve_tag_def)
      have y: "error_of y = None" using Inr by (simp add: error_of_def)
      let ?tr = "[(TagsSelectBySlug ?g, error_of found)] @ [(TagsInsert n ?g, error_of y)] @
        [(PostTagsInsert pid (t_id t), error_of x)]"
      have sh3: "run_shape None [(PostTagsInsert pid (t_id t), error_of x)]"
        by (rule run_shape_unchecked) simp
      from sh2 have "run_shape None [(TagsInsert n ?g, error_of y)]" by (simp only: y)
      then have "run_shape None ([(TagsInsert n ?g, error_of y)] @
        [(PostTagsInsert pid (t_id t), error_of x)])" using sh3 by (rule run_shape_append)
      with sh1 have "run_shape None ?tr" by (rule run_shape_append)
      then have "run_shape (error_of r) ?tr" using r by (simp add: error_of_def)
      moreover have "trace s' = trace s @ ?tr" using e1 e2 e3 r by simp
      moreover have "lookups ?tr = [TagsSelectBySlug ?g]" by (simp add: lookups_def)
      moreover have "safe_step s s'"
        using p1 p2 post_tags_insert_safe[OF k] r by (blast intro: safe_step_trans)
      moreover have "posts s' = posts s" "objects s' = objects s" using e1 e2 e3 r by simp_all
      ultimately show ?thesis by blast
    qed
  qed
qed

lemma tag_loop_run:
  "tag_loop pid ns s = (r, s') \<Longrightarrow>
   \<exists>tr. trace s' = trace s @ tr \<and> run_shape (error_of r) tr \<and>
        (error_of r = None \<longrightarrow> lookups tr = map (\<lambda>n. TagsSelectBySlug (generateSlug n)) ns) \<and>
        safe_step s s' \<and> posts s' = posts s \<and> objects s' = objects s"
proof (induction ns arbitrary: s)
  case Nil
  then have "r = Inr ()" "s' = s" by simp_all
  then show ?case
    by (intro exI[of _ "[]"]) (simp add: error_of_def run_shape_Nil lookups_def safe_step_refl)
next
  case (Cons n ns)
  obtain r1 s1 where a: "resolve_tag pid n s = (r1, s1)" by (cases "resolve_tag pid n s") auto
  from resolve_tag_run[OF a] obtain tr1 where
    tr1: "trace s1 = trace s @ tr1" "run_shape (error_of r1) tr1"
      "lookups tr1 = [TagsSelectBySlug (generateSlug n)]"
      "safe_step s s1" "posts s1 = posts s" "objects s1 = objects s" by blast
  show ?case
  proof (cases r1)
    case (Inl e)
    with Cons.prems a have "r = Inl e" "s' = s1" by simp_all
    with tr1 Inl show ?thesis by (intro exI[of _ tr1]) (simp add: error_of_def)
  next
    case (Inr u)
    with Cons.prems a have "tag_loop pid ns s1 = (r, s')" by simp
    from Cons.IH[OF this] obtain tr2 where
      all2: "trace s' = trace s1 @ tr2 \<and> run_shape (error_of r) tr2 \<and>
        (error_of r = None \<longrightarrow>
           lookups tr2 = map (\<lambda>n. TagsSelectBySlug (generateSlug n)) ns) \<and>
        safe_step s1 s' \<and> posts s' = posts s1 \<and> objects s' = objects s1" ..
    then have tr2: "trace s' = trace s1 @ tr2" "run_shape (error_of r) tr2"
        "error_of r = None \<longrightarrow> lookups tr2 = map (\<lambda>n. TagsSelectBySlug (generateSlug n)) ns"
        "safe_step s1 s'" "posts s' = posts s1" "objects s' = objects s1" by simp_all
    from tr1 Inr have "run_shape None tr1" by (simp add: error_of_def)
    then have "run_shape (error_of r) (tr1 @ tr2)" using tr2(2) by (rule run_shape_append)
    moreover have "trace s' = trace s @ tr1 @ tr2" using tr1 tr2 by simp
    moreover have "error_of r = None \<longrightarrow>
        lookups (tr1 @ tr2) = map (\<lambda>n. TagsSelectBySlug (generateSlug n)) (n # ns)"
      using tr1(3) tr2(3) by (simp add: lookups_append)
    moreover have "safe_step s s'" using tr1(4) tr2(4) by (rule safe_step_trans)
    moreover have "posts s' = posts s" "objects s' = objects s"
      using tr1(5,6) tr2(5,6) by simp_all
    ultimately show ?thesis by (intro exI[of _ "tr1 @ tr2"]) simp
  qed
qed

lemma upload_image_run:
  assumes "upload_image u now io s = (r, s')"
  shows "\<exists>tr. trace s' = trace s @ tr \<and> run_shape (error_of r) tr \<and> lookups tr = [] \<and>
           safe_step s s' \<and> posts s' = posts s"
proof (cases io)
  case None
  with assms have "r = Inr None" "s' = s" by (simp_all add: upload_image_def)
  then show ?thesis
    by (intro exI[of _ "[]"]) (simp add: error_of_def run_shape_Nil lookups_def safe_step_refl)
next
  case (Some img)
  let ?p = "u @ ''/'' @ decimal now @ ''.'' @ pop (split CHR ''.'' (file_name img))"
  obtain x s1 where a: "storage_upload ?p s = (x, s1)" by (cases "storage_upload ?p s") auto
  note e = storage_upload_effect[OF a]
  have sh: "run_shape (error_of x) [(StorageUpload ?p, error_of x)]"
    by (rule run_shape_checked) simp
  from assms Some a have "error_of r = error_of x" "s' = s1"
    by (auto simp: upload_image_def Let_def error_of_def split: sum.splits)
  with sh e storage_upload_safe[OF a] show ?thesis
    by (intro exI[of _ "[(StorageUpload ?p, error_of x)]"]) (simp add: lookups_def)
qed

lemma submit_validated_run:
  assumes "submit_validated u now io v s = (r, s')"
  shows "\<exists>tr. trace s' = trace s @ tr \<and> safe_step s s' \<and>
           (case r of
              Inl (ZodError m ms) \<Rightarrow> False
            | Inl (Thrown e) \<Rightarrow> run_shape (Some e) tr
            | Inr slug \<Rightarrow>
                run_shape None tr \<and> slug = generateSlug (v_title v) \<and>
                posts s' \<noteq> posts s \<and>
                lookups tr = map (\<lambda>n. TagsSelectBySlug (generateSlug n))
                  (if v_tags v \<noteq> [] then tagNames (v_tags v) else [])) \<and>
           (posts s' = posts s \<or>
            (\<exists>row. posts s' = posts s @ [row] \<and>
               p_title row = v_title v \<and>
               p_slug row = generateSlug (v_title v) \<and>
               p_content row = v_content v \<and>
               p_excerpt row =
                 (if v_excerpt v \<noteq> [] then v_excerpt v else take 200 (v_content v)) \<and>
               p_author_id row = u))"
proof -
  obtain r1 s1 where a: "upload_image u now io s = (r1, s1)"
    by (cases "upload_image u now io s") auto
  from upload_image_run[OF a] obtain tr1 where
    tr1: "trace s1 = trace s @ tr1" "run_shape (error_of r1) tr1" "lookups tr1 = []"
      "safe_step s s1" "posts s1 = posts s" by blast
  show ?thesis
  proof (cases r1)
    case (Inl e)
    with assms a have "r = Inl (Thrown e)" "s' = s1" by (simp_all add: submit_validated_def)
    with tr1 Inl show ?thesis by (intro exI[of _ tr1]) (simp add: error_of_def)
  next
    case url: (Inr imageUrl)
    then have sh1: "run_shape None tr1" using tr1 by (simp add: error_of_def)
    let ?np = "\<lparr>np_title = v_title v, np_slug = generateSlug (v_title v),
                 np_content = v_content v,
                 np_excerpt = (if v_excerpt v \<noteq> [] then v_excerpt v else take 200 (v_content v)),
                 np_featured_image = imageUrl, np_author_id = u\<rparr>"
    obtain r2 s2 where b: "posts_insert ?np s1 = (r2, s2)" by (cases "posts_insert ?np s1") auto
    note e2 = posts_insert_effect[OF b]
    have "run_shape (error_of r2) [(PostsInsert ?np, error_of r2)]"
      by (rule run_shape_checked) simp
    with sh1 have sh2: "run_shape (error_of r2) (tr1 @ [(PostsInsert ?np, error_of r2)])"
      by (rule run_shape_append)
    have t12: "trace s2 = trace s @ tr1 @ [(PostsInsert ?np, error_of r2)]"
      using tr1(1) e2 by simp
    have l12: "lookups (tr1 @ [(PostsInsert ?np, error_of r2)]) = []"
      using tr1(3) by (simp add: lookups_def)
    have p12: "safe_step s s2" using tr1(4) posts_insert_safe[OF b] by (rule safe_step_trans)
    show ?thesis
    proof (cases r2)
      case (Inl e)
      with assms a url b have "r = Inl (Thrown e)" "s' = s2"
        by (simp_all add: submit_validated_def Let_def)
      moreover from Inl e2 tr1(5) have "posts s2 = posts s" by auto
      ultimately show ?thesis using sh2 t12 p12 Inl
        by (intro exI[of _ "tr1 @ [(PostsInsert ?np, error_of r2)]"]) (simp add: error_of_def)
    next
      case post: (Inr postData)
      then have sh2': "run_shape None (tr1 @ [(PostsInsert ?np, error_of r2)])"
        using sh2 by (simp add: error_of_def)
      from post e2 tr1(5) have row: "posts s2 = posts s @ [postData]"
        "p_title postData = v_title v"
        "p_slug postData = generateSlug (v_title v)"
        "p_content postData = v_content v"
        "p_excerpt postData =
           (if v_excerpt v \<noteq> [] then v_excerpt v else take 200 (v_content v))"
        "p_author_id postData = u"
        by auto
      show ?thesis
      proof (cases "v_tags v \<noteq> []")
        case False
        with assms a url b post have "r = Inr (generateSlug (v_title v))" "s' = s2"
          by (simp_all add: submit_validated_def Let_def)
        with sh2' t12 l12 p12 row False show ?thesis
          by (intro exI[of _ "tr1 @ [(PostsInsert ?np, error_of r2)]"]) simp
      next
        case True
        obtain r3 s3 where c: "tag_loop (p_id postData) (tagNames (v_tags v)) s2 = (r3, s3)"
          by (cases "tag_loop (p_id postData) (tagNames (v_tags v)) s2") auto
        from tag_loop_run[OF c] obtain tr3 where
          all3: "trace s3 = trace s2 @ tr3 \<and> run_shape (error_of r3) tr3 \<and>
            (error_of r3 = None \<longrightarrow>
               lookups tr3 = map (\<lambda>n. TagsSelectBySlug (generateSlug n)) (tagNames (v_tags v))) \<and>
            safe_step s2 s3 \<and> posts s3 = posts s2 \<and> objects s3 = objects s2" ..
        then have tr3: "trace s3 = trace s2 @ tr3" "run_shape (error_of r3) tr3"
            "error_of r3 = None \<longrightarrow>
               lookups tr3 = map (\<lambda>n. TagsSelectBySlug (generateSlug n)) (tagNames (v_tags v))"
            "safe_step s2 s3" "posts s3 = posts s2" by simp_all
        let ?tr = "(tr1 @ [(PostsInsert ?np, error_of r2)]) @ tr3"
        have sh3: "run_shape (error_of r3) ?tr"
          using sh2' tr3(2) by (rule run_shape_append)
        have t3: "trace s3 = trace s @ ?tr" using t12 tr3(1) by simp
        have l3: "error_of r3 = None \<longrightarrow>
            lookups ?tr = map (\<lambda>n. TagsSelectBySlug (generateSlug n)) (tagNames (v_tags v))"
          using l12 tr3(3) by (simp only: lookups_append) simp
        have p3: "safe_step s s3" using p12 tr3(4) by (rule safe_step_trans)
        have row3: "posts s3 = posts s @ [postData]" using row(1) tr3(5) by simp
        show ?thesis
        proof (cases r3)
          case (Inl e)
          with assms a url b post True c have "r = Inl (Thrown e)" "s' = s3"
            by (simp_all add: submit_validated_def Let_def)
          with sh3 t3 p3 row3 row Inl show ?thesis
            by (intro exI[of _ ?tr]) (simp add: error_of_def)
        next
          case fin: (Inr x)
          with assms a url b post True c have "r = Inr (generateSlug (v_title v))" "s' = s3"
            by (simp_all add: submit_validated_def Let_def)
          moreover from fin have "error_of r3 = None" by (simp add: error_of_def)
          ultimately show ?thesis using sh3 t3 l3 p3 row3 row True
            by (intro exI[of _ ?tr]) simp
        qed
      qed
    qed
  qed
qed

lemma try_block_run:
  assumes "try_block u now f s = (r, s')"
  shows "\<exists>tr. trace s' = trace s @ tr \<and> safe_step s s' \<and>
           (case r of
              Inl (ZodError m ms) \<Rightarrow>
                tr = [] \<and> s' = s \<and> postSchema_issues f = m # ms
            | Inl (Thrown e) \<Rightarrow> run_shape (Some e) tr \<and> postSchema_issues f = []
            | Inr slug \<Rightarrow>
                run_shape None tr \<and> postSchema_issues f = [] \<and>
                slug = generateSlug (trim (f_title f)) \<and>
                posts s' \<noteq> posts s \<and>
                lookups tr = map (\<lambda>n. TagsSelectBySlug (generateSlug n))
                  (if trim (f_tags f) \<noteq> [] then tagNames (trim (f_tags f)) else [])) \<and>
           (posts s' = posts s \<or>
            (\<exists>row. posts s' = posts s @ [row] \<and>
               p_title row = trim (f_title f) \<and>
               p_slug row = generateSlug (trim (f_title f)) \<and>
               p_content row = trim (f_content f) \<and>
               p_excerpt row =
                 (if trim (f_excerpt f) \<noteq> [] then trim (f_excerpt f)
                  else take 200 (trim (f_content f))) \<and>
               p_author_id row = u))"
proof (cases "postSchema_parse f")
  case (Inl z)
  with assms have "r = Inl z" "s' = s" by (simp_all add: try_block_def)
  moreover from Inl obtain m ms where "z = ZodError m ms" "postSchema_issues f = m # ms"
    by (auto simp: postSchema_parse_def split: list.splits)
  ultimately show ?thesis by (intro exI[of _ "[]"]) (simp add: safe_step_refl)
next
  case (Inr v)
  then have iss: "postSchema_issues f = []"
    and v: "v_title v = trim (f_title f)" "v_content v = trim (f_content f)"
      "v_excerpt v = trim (f_excerpt f)" "v_tags v = trim (f_tags f)"
    by (auto simp: postSchema_parse_def split: list.splits)
  from assms Inr have "submit_validated u now (f_image f) v s = (r, s')"
    by (simp add: try_block_def)
  from submit_validated_run[OF this] obtain tr where
    all: "trace s' = trace s @ tr \<and> safe_step s s' \<and>
           (case r of
              Inl (ZodError m ms) \<Rightarrow> False
            | Inl (Thrown e) \<Rightarrow> run_shape (Some e) tr
            | Inr slug \<Rightarrow>
                run_shape None tr \<and> slug = generateSlug (v_title v) \<and>
                posts s' \<noteq> posts s \<and>
                lookups tr = map (\<lambda>n. TagsSelectBySlug (generateSlug n))
                  (if v_tags v \<noteq> [] then tagNames (v_tags v) else [])) \<and>
           (posts s' = posts s \<or>
            (\<exists>row. posts s' = posts s @ [row] \<and>
               p_title row = v_title v \<and>
               p_slug row = generateSlug (v_title v) \<and>
               p_content row = v_content v \<and>
               p_excerpt row =
                 (if v_excerpt v \<noteq> [] then v_excerpt v else take 200 (v_content v)) \<and>
               p_author_id row = u))" ..
  show ?thesis
    using all iss unfolding v
    by (intro exI[of _ tr]) (simp split: sum.splits exn.splits)
qed

section \<open>Tag names\<close>

lemma split_not_Nil: "split c s \<noteq> []"
  by (cases s) (auto split: list.splits)

lemma trim_by_Cons: "p x \<Longrightarrow> trim_by p (x # y) = trim_by p y"
  by (simp add: trim_by_def)

lemma trim_by_snoc: "p x \<Longrightarrow> trim_by p (y @ [x]) = trim_by p y"
proof (cases "\<forall>c\<in>set y. p c")
  case True
  assume px: "p x"
  from True have a: "dropWhile p y = []" by simp
  from True have "dropWhile p (y @ [x]) = dropWhile p [x]" by (intro dropWhile_append2) simp
  with px have b: "dropWhile p (y @ [x]) = []" by simp
  show ?thesis by (simp only: trim_by_def a b)
next
  case False
  assume px: "p x"
  from False obtain c where "c \<in> set y" "\<not> p c" by blast
  then have "dropWhile p (y @ [x]) = dropWhile p y @ [x]" by (rule dropWhile_append1)
  with px show ?thesis by (simp add: trim_by_def)
qed

lemma split_snoc_other:
  "x \<noteq> c \<Longrightarrow> split c (xs @ [x]) = butlast (split c xs) @ [last (split c xs) @ [x]]"
proof (induction xs)
  case Nil
  then show ?case by simp
next
  case (Cons a xs)
  note ih = Cons.IH[OF Cons.prems]
  have ne: "split c xs \<noteq> []" by (rule split_not_Nil)
  show ?case
  proof (cases "a = c")
    case True
    with ih ne show ?thesis by simp
  next
    case False
    obtain y ys where s: "split c xs = y # ys" using ne by (cases "split c xs") auto
    show ?thesis
    proof (cases ys)
      case Nil
      with False s ih show ?thesis by simp
    next
      case (Cons z zs)
      with False s ih show ?thesis by simp
    qed
  qed
qed

lemma map_trim_split_Cons:
  assumes "is_space x" "x \<noteq> c"
  shows "map trim (split c (x # xs)) = map trim (split c xs)"
proof -
  obtain y ys where s: "split c xs = y # ys"
    using split_not_Nil[of c xs] by (cases "split c xs") auto
  with assms show ?thesis by (simp add: trim_def trim_by_Cons)
qed

lemma map_trim_split_snoc:
  assumes "is_space x" "x \<noteq> c"
  shows "map trim (split c (xs @ [x])) = map trim (split c xs)"
proof -
  let ?S = "split c xs"
  have ne: "?S \<noteq> []" by (rule split_not_Nil)
  have "map trim (split c (xs @ [x])) = map trim (butlast ?S) @ [trim (last ?S @ [x])]"
    using assms(2) by (simp add: split_snoc_other)
  also have "\<dots> = map trim (butlast ?S) @ [trim (last ?S)]"
    using assms(1) by (simp add: trim_def trim_by_snoc)
  also have "\<dots> = map trim (butlast ?S @ [last ?S])" by simp
  also have "\<dots> = map trim ?S" using ne by simp
  finally show ?thesis .
qed

lemma map_trim_split_dropWhile:
  assumes "\<not> is_space c"
  shows "map trim (split c (dropWhile is_space s)) = map trim (split c s)"
proof (induction s)
  case Nil
  show ?case by simp
next
  case (Cons x xs)
  show ?case
  proof (cases "is_space x")
    case True
    with assms have "x \<noteq> c" by auto
    with True Cons show ?thesis by (simp add: map_trim_split_Cons del: split.simps)
  next
    case False
    then show ?thesis by simp
  qed
qed

lemma map_trim_split_dropWhile_rev:
  assumes "\<not> is_space c"
  shows "map trim (split c (rev (dropWhile is_space (rev s)))) = map trim (split c s)"
proof (induction s rule: rev_induct)
  case Nil
  show ?case by simp
next
  case (snoc x xs)
  show ?case
  proof (cases "is_space x")
    case True
    with assms have "x \<noteq> c" by auto
    with True snoc show ?thesis by (simp add: map_trim_split_snoc)
  next
    case False
    then show ?thesis by simp
  qed
qed

lemma map_trim_split_trim:
  assumes "\<not> is_space c"
  shows "map trim (split c (trim s)) = map trim (split c s)"
proof -
  have t: "trim s = rev (dropWhile is_space (rev (dropWhile is_space s)))"
    by (simp add: trim_def trim_by_def)
  have "map trim (split c (trim s)) = map trim (split c (dropWhile is_space s))"
    unfolding t by (rule map_trim_split_dropWhile_rev[OF assms])
  also have "\<dots> = map trim (split c s)" by (rule map_trim_split_dropWhile[OF assms])
  finally show ?thesis .
qed

lemma comma_not_space: "\<not> is_space CHR '',''"
  by (simp add: is_space_def)

lemma processed_tag_names:
  "(if trim input \<noteq> [] then tagNames (trim input) else []) = spec_tag_names input"
proof (cases "trim input = []")
  case True
  have "spec_tag_names input = filter (\<lambda>t. t \<noteq> []) (map trim (split CHR '','' (trim input)))"
    by (simp add: spec_tag_names_def map_trim_split_trim[OF comma_not_space])
  also have "\<dots> = []" unfolding True by (simp add: trim_def trim_by_def)
  finally show ?thesis using True by simp
next
  case False
  then show ?thesis
    by (simp add: tagNames_def spec_tag_names_def map_trim_split_trim[OF comma_not_space])
qed

section \<open>Links and unique keys\<close>

lemma links_for_slug_bound:
  assumes "unique_keys s"
  shows "length (links_for_slug s pid slug) \<le> 1"
proof -
  let ?key = "\<lambda>l. (pt_post_id l, pt_tag_id l)"
  let ?L = "links_for_slug s pid slug"
  from assms have dt: "distinct (map t_slug (tags s))" and dl: "distinct (map ?key (post_tags s))"
    by (simp_all add: unique_keys_def)
  have dL: "distinct (map ?key ?L)"
    unfolding links_for_slug_def using dl by (rule distinct_map_filter)
  have same: "?key a = ?key b" if a: "a \<in> set ?L" and b: "b \<in> set ?L" for a b
  proof -
    from a obtain t where t: "t \<in> set (tags s)" "t_id t = pt_tag_id a" "t_slug t = slug"
      and pa: "pt_post_id a = pid"
      by (auto simp: links_for_slug_def list_ex_iff)
    from b obtain t' where t': "t' \<in> set (tags s)" "t_id t' = pt_tag_id b" "t_slug t' = slug"
      and pb: "pt_post_id b = pid"
      by (auto simp: links_for_slug_def list_ex_iff)
    from dt have "inj_on t_slug (set (tags s))" by (simp add: distinct_map)
    with t t' have "t = t'" by (auto dest: inj_onD)
    with t t' pa pb show ?thesis by simp
  qed
  show ?thesis
  proof (cases ?L)
    case Nil
    then show ?thesis by simp
  next
    case (Cons a as)
    have "as = []"
    proof (cases as)
      case Nil
      then show ?thesis .
    next
      case (Cons b bs)
      with \<open>?L = a # as\<close> have "a \<in> set ?L" "b \<in> set ?L" by simp_all
      then have "?key a = ?key b" by (rule same)
      moreover from dL \<open>?L = a # as\<close> Cons have "?key a \<noteq> ?key b" by simp
      ultimately show ?thesis by simp
    qed
    with Cons show ?thesis by simp
  qed
qed

lemma handleSubmit_run:
  assumes "handleSubmit user now f s = (fx, s')"
  shows "\<exists>tr. trace s' = trace s @ tr \<and> safe_step s s' \<and>
           ((user = None \<and> fx = [] \<and> s' = s \<and> tr = []) \<or>
            (\<exists>m ms. user \<noteq> None \<and> postSchema_issues f = m # ms \<and>
               fx = [SetLoading True, ToastError m, SetLoading False] \<and> s' = s \<and> tr = []) \<or>
            (\<exists>e. user \<noteq> None \<and> postSchema_issues f = [] \<and> fx = failure_effects e \<and>
               run_shape (Some e) tr) \<or>
            (user \<noteq> None \<and> postSchema_issues f = [] \<and>
               fx = success_effects (generateSlug (trim (f_title f))) \<and>
               run_shape None tr \<and> posts s' \<noteq> posts s \<and>
               lookups tr = map (\<lambda>n. TagsSelectBySlug (generateSlug n))
                 (if trim (f_tags f) \<noteq> [] then tagNames (trim (f_tags f)) else []))) \<and>
           (posts s' = posts s \<or>
            (\<exists>row. posts s' = posts s @ [row] \<and>
               p_title row = trim (f_title f) \<and>
               p_slug row = generateSlug (trim (f_title f)) \<and>
               p_content row = trim (f_content f) \<and>
               p_excerpt row =
                 (if trim (f_excerpt f) \<noteq> [] then trim (f_excerpt f)
                  else take 200 (trim (f_content f))) \<and>
               user = Some (p_author_id row)))"
proof (cases user)
  case None
  with assms have "fx = []" "s' = s" by (simp_all add: handleSubmit_def)
  with None show ?thesis by (intro exI[of _ "[]"]) (simp add: safe_step_refl)
next
  case (Some u)
  obtain r s1 where tb: "try_block u now f s = (r, s1)" by (cases "try_block u now f s") auto
  from try_block_run[OF tb] obtain tr where
    all: "trace s1 = trace s @ tr \<and> safe_step s s1 \<and>
           (case r of
              Inl (ZodError m ms) \<Rightarrow>
                tr = [] \<and> s1 = s \<and> postSchema_issues f = m # ms
            | Inl (Thrown e) \<Rightarrow> run_shape (Some e) tr \<and> postSchema_issues f = []
            | Inr slug \<Rightarrow>
                run_shape None tr \<and> postSchema_issues f = [] \<and>
                slug = generateSlug (trim (f_title f)) \<and>
                posts s1 \<noteq> posts s \<and>
                lookups tr = map (\<lambda>n. TagsSelectBySlug (generateSlug n))
                  (if trim (f_tags f) \<noteq> [] then tagNames (trim (f_tags f)) else [])) \<and>
           (posts s1 = posts s \<or>
            (\<exists>row. posts s1 = posts s @ [row] \<and>
               p_title row = trim (f_title f) \<and>
               p_slug row = generateSlug (trim (f_title f)) \<and>
               p_content row = trim (f_content f) \<and>
               p_excerpt row =
                 (if trim (f_excerpt f) \<noteq> [] then trim (f_excerpt f)
                  else take 200 (trim (f_content f))) \<and>
               p_author_id row = u))" ..
  from assms Some tb have s': "s' = s1"
    by (auto simp: handleSubmit_def split: sum.splits exn.splits)
  have rows: "posts s' = posts s \<or>
            (\<exists>row. posts s' = posts s @ [row] \<and>
               p_title row = trim (f_title f) \<and>
               p_slug row = generateSlug (trim (f_title f)) \<and>
               p_content row = trim (f_content f) \<and>
               p_excerpt row =
                 (if trim (f_excerpt f) \<noteq> [] then trim (f_excerpt f)
                  else take 200 (trim (f_content f))) \<and>
               user = Some (p_author_id row))"
    using all s' Some by auto
  from all s' have tr: "trace s' = trace s @ tr" and st: "safe_step s s'" by simp_all
  show ?thesis
  proof (cases r)
    case (Inr slug)
    with all have c: "run_shape None tr" "postSchema_issues f = []"
      "slug = generateSlug (trim (f_title f))" "posts s1 \<noteq> posts s"
      "lookups tr = map (\<lambda>n. TagsSelectBySlug (generateSlug n))
                  (if trim (f_tags f) \<noteq> [] then tagNames (trim (f_tags f)) else [])"
      by simp_all
    from assms Some tb Inr have "fx = success_effects slug"
      by (simp add: handleSubmit_def success_effects_def)
    with c s' Some tr st rows show ?thesis by (intro exI[of _ tr]) simp
  next
    case (Inl x)
    show ?thesis
    proof (cases x)
      case (ZodError m ms)
      with Inl all have c: "tr = []" "s1 = s" "postSchema_issues f = m # ms" by simp_all
      from assms Some tb Inl ZodError
      have "fx = [SetLoading True, ToastError m, SetLoading False]"
        by (simp add: handleSubmit_def)
      with c s' Some tr st rows show ?thesis by (intro exI[of _ tr]) simp
    next
      case (Thrown e)
      with Inl all have c: "run_shape (Some e) tr" "postSchema_issues f = []" by simp_all
      from assms Some tb Inl Thrown have "fx = failure_effects e"
        by (simp add: handleSubmit_def failure_effects_def)
      with c Some have "\<exists>e. user \<noteq> None \<and> postSchema_issues f = [] \<and> fx = failure_effects e \<and>
               run_shape (Some e) tr" by blast
      with tr st rows show ?thesis by (intro exI[of _ tr]) blast
    qed
  qed
qed

lemma handleSubmit_checked_failure:
  assumes run: "handleSubmit user now f s = (fx, s')"
    and chk: "is_checked rq" and mem: "(rq, Some e) \<in> set (issued s s')"
  shows "last (issued s s') = (rq, Some e) \<and>
         checked_failures (butlast (issued s s')) = [] \<and> fx = failure_effects e"
proof -
  from handleSubmit_run[OF run] obtain tr where
    tr: "trace s' = trace s @ tr" and
    cases: "(user = None \<and> fx = [] \<and> s' = s \<and> tr = []) \<or>
            (\<exists>m ms. user \<noteq> None \<and> postSchema_issues f = m # ms \<and>
               fx = [SetLoading True, ToastError m, SetLoading False] \<and> s' = s \<and> tr = []) \<or>
            (\<exists>e. user \<noteq> None \<and> postSchema_issues f = [] \<and> fx = failure_effects e \<and>
               run_shape (Some e) tr) \<or>
            (user \<noteq> None \<and> postSchema_issues f = [] \<and>
               fx = success_effects (generateSlug (trim (f_title f))) \<and>
               run_shape None tr \<and> posts s' \<noteq> posts s \<and>
               lookups tr = map (\<lambda>n. TagsSelectBySlug (generateSlug n))
                 (if trim (f_tags f) \<noteq> [] then tagNames (trim (f_tags f)) else []))"
    by (elim exE conjE) (rule that)
  from tr have iss: "issued s s' = tr" by (simp add: issued_def)
  with mem have m: "(rq, Some e) \<in> set tr" by simp
  from cases consider "tr = []" | e' where "fx = failure_effects e'" "run_shape (Some e') tr"
    | "run_shape None tr" by blast
  then show ?thesis
  proof cases
    case 1
    with m show ?thesis by simp
  next
    case (2 e')
    from run_shape_last[OF 2(2) chk m] have "e' = e" "last tr = (rq, Some e)" by simp_all
    moreover from 2(2) have "checked_failures (butlast tr) = []" by (simp add: run_shape_def)
    ultimately show ?thesis using 2(1) iss by simp
  next
    case 3
    from run_shape_last[OF 3 chk m] show ?thesis by simp
  qed
qed

section \<open>The names the loop runs over\<close>

text \<open>
  The names reach the backend in two ways: through their slugs in the lookups, and
  unchanged in the tag inserts.  The lemmas follow the tag inserts through a run and
  reduce the handler, once the post row exists, to the loop.
\<close>

lemma handleSubmit_valid:
  assumes "postSchema_parse f = Inr v"
  shows "handleSubmit (Some u) now f s =
    (case submit_validated u now (f_image f) v s of
       (Inr slug, s') \<Rightarrow> (success_effects slug, s')
     | (Inl (ZodError m ms), s') \<Rightarrow> ([SetLoading True, ToastError m, SetLoading False], s')
     | (Inl (Thrown e), s') \<Rightarrow> (failure_effects e, s'))"
  by (simp add: handleSubmit_def try_block_def assms success_effects_def failure_effects_def
      split: prod.splits sum.splits exn.splits)

lemma tag_inserts_append: "tag_inserts (a @ b) = tag_inserts a @ tag_inserts b"
  by (simp add: tag_inserts_def)

lemma fresh_names_cong: "set a = set b \<Longrightarrow> fresh_names a ns = fresh_names b ns"
proof (induction ns arbitrary: a b)
  case Nil
  show ?case by simp
next
  case (Cons n ns)
  from Cons.prems have 1: "set (generateSlug n # a) = set (generateSlug n # b)" by simp
  from Cons.IH[OF Cons.prems] Cons.IH[OF 1] Cons.prems show ?case by simp
qed

lemma resolve_tag_inserts:
  assumes "resolve_tag pid n s = (r, s')"
  shows "\<exists>tr. trace s' = trace s @ tr \<and>
           set (tag_inserts tr) \<subseteq> {(n, generateSlug n)} \<and>
           (r = Inr () \<longrightarrow>
              (if generateSlug n \<in> set (map t_slug (tags s))
               then tag_inserts tr = [] \<and> tags s' = tags s
               else tag_inserts tr = [(n, generateSlug n)] \<and>
                    set (map t_slug (tags s')) = set (generateSlug n # map t_slug (tags s))))"
proof -
  let ?g = "generateSlug n"
  obtain found s1 where l: "tags_select_by_slug ?g s = (found, s1)"
    by (cases "tags_select_by_slug ?g s") auto
  note e1 = tags_select_by_slug_effect[OF l]
  show ?thesis
  proof (cases "case found of Inl _ \<Rightarrow> None | Inr existingTag \<Rightarrow> existingTag")
    case (Some t)
    obtain x s2 where k: "post_tags_insert pid (t_id t) s1 = (x, s2)"
      by (cases "post_tags_insert pid (t_id t) s1") auto
    note e2 = post_tags_insert_effect[OF k]
    from assms l Some k have r: "r = Inr ()" "s' = s2" by (simp_all add: resolve_tag_def)
    from Some have f: "found = Inr (Some t)" by (auto split: sum.splits)
    with e1 have "maybeSingle (filter (\<lambda>t. t_slug t = ?g) (tags s)) = Inr (Some t)" by auto
    then have "filter (\<lambda>t. t_slug t = ?g) (tags s) = [t]" by (rule maybeSingle_Some)
    then have "t \<in> set (filter (\<lambda>t. t_slug t = ?g) (tags s))" by simp
    then have "t \<in> set (tags s)" "t_slug t = ?g" by simp_all
    then have known: "?g \<in> set (map t_slug (tags s))" by force
    let ?tr = "[(TagsSelectBySlug ?g, error_of found), (PostTagsInsert pid (t_id t), error_of x)]"
    have "trace s' = trace s @ ?tr" using e1 e2 r by simp
    moreover have "tag_inserts ?tr = []" by (simp add: tag_inserts_def)
    moreover have "tags s' = tags s" using e1 e2 r by simp
    ultimately show ?thesis using known by (intro exI[of _ ?tr]) simp
  next
    case None
    obtain y s2 where i: "tags_insert n ?g s1 = (y, s2)"
      by (cases "tags_insert n ?g s1") auto
    note e2 = tags_insert_effect[OF i]
    show ?thesis
    proof (cases y)
      case (Inl e)
      from assms l None i Inl have r: "r = Inl e" "s' = s2" by (simp_all add: resolve_tag_def)
      let ?tr = "[(TagsSelectBySlug ?g, error_of found), (TagsInsert n ?g, error_of y)]"
      have "trace s' = trace s @ ?tr" using e1 e2 r by simp
      moreover have "tag_inserts ?tr = [(n, ?g)]" by (simp add: tag_inserts_def)
      ultimately show ?thesis using r by (intro exI[of _ ?tr]) simp
    next
      case (Inr t)
      obtain x s3 where k: "post_tags_insert pid (t_id t) s2 = (x, s3)"
        by (cases "post_tags_insert pid (t_id t) s2") auto
      note e3 = post_tags_insert_effect[OF k]
      from assms l None i Inr k have r: "r = Inr ()" "s' = s3" by (simp_all add: resolve_tag_def)
      from e2 Inr have new: "?g \<notin> set (map t_slug (tags s1))" "tags s2 = tags s1 @ [t]"
        "t_slug t = ?g" by auto
      let ?tr = "[(TagsSelectBySlug ?g, error_of found), (TagsInsert n ?g, error_of y),
        (PostTagsInsert pid (t_id t), error_of x)]"
      have "trace s' = trace s @ ?tr" using e1 e2 e3 r by simp
      moreover have "tag_inserts ?tr = [(n, ?g)]" by (simp add: tag_inserts_def)
      moreover have "?g \<notin> set (map t_slug (tags s))" using new(1) e1 by simp
      moreover have "set (map t_slug (tags s')) = set (?g # map t_slug (tags s))"
        using new e1 e3 r by simp
      ultimately show ?thesis by (intro exI[of _ ?tr]) simp
    qed
  qed
qed

lemma tag_loop_inserts:
  "tag_loop pid ns s = (r, s') \<Longrightarrow>
   \<exists>tr. trace s' = trace s @ tr \<and>
        set (tag_inserts tr) \<subseteq> (\<lambda>n. (n, generateSlug n)) ` set ns \<and>
        (r = Inr () \<longrightarrow>
           tag_inserts tr =
             map (\<lambda>n. (n, generateSlug n)) (fresh_names (map t_slug (tags s)) ns))"
proof (induction ns arbitrary: s)
  case Nil
  then have "r = Inr ()" "s' = s" by simp_all
  then show ?case by (intro exI[of _ "[]"]) (simp add: tag_inserts_def)
next
  case (Cons n ns)
  let ?g = "generateSlug n"
  obtain r1 s1 where a: "resolve_tag pid n s = (r1, s1)" by (cases "resolve_tag pid n s") auto
  from resolve_tag_inserts[OF a] obtain tr1 where
    all1: "trace s1 = trace s @ tr1 \<and>
           set (tag_inserts tr1) \<subseteq> {(n, ?g)} \<and>
           (r1 = Inr () \<longrightarrow>
              (if ?g \<in> set (map t_slug (tags s))
               then tag_inserts tr1 = [] \<and> tags s1 = tags s
               else tag_inserts tr1 = [(n, ?g)] \<and>
                    set (map t_slug (tags s1)) = set (?g # map t_slug (tags s))))" ..
  note t1 = all1[THEN conjunct1]
  note sub1 = all1[THEN conjunct2, THEN conjunct1]
  note ok1 = all1[THEN conjunct2, THEN conjunct2]
  show ?case
  proof (cases r1)
    case (Inl e)
    with Cons.prems a have "r = Inl e" "s' = s1" by simp_all
    with t1 sub1 show ?thesis by (intro exI[of _ tr1]) auto
  next
    case (Inr u)
    with Cons.prems a have "tag_loop pid ns s1 = (r, s')" by simp
    from Cons.IH[OF this] obtain tr2 where
      all2: "trace s' = trace s1 @ tr2 \<and>
        set (tag_inserts tr2) \<subseteq> (\<lambda>n. (n, generateSlug n)) ` set ns \<and>
        (r = Inr () \<longrightarrow>
           tag_inserts tr2 =
             map (\<lambda>n. (n, generateSlug n)) (fresh_names (map t_slug (tags s1)) ns))" ..
    note t2 = all2[THEN conjunct1]
    note sub2 = all2[THEN conjunct2, THEN conjunct1]
    note ok2 = all2[THEN conjunct2, THEN conjunct2]
    from Inr have r1: "r1 = Inr ()" by simp
    have "trace s' = trace s @ tr1 @ tr2" using t1 t2 by simp
    moreover have "set (tag_inserts (tr1 @ tr2)) \<subseteq> (\<lambda>n. (n, generateSlug n)) ` set (n # ns)"
      using sub1 sub2 by (auto simp: tag_inserts_append)
    moreover have "tag_inserts (tr1 @ tr2) =
        map (\<lambda>n. (n, generateSlug n)) (fresh_names (map t_slug (tags s)) (n # ns))"
      if "r = Inr ()"
    proof (cases "?g \<in> set (map t_slug (tags s))")
      case True
      with ok1 r1 have "tag_inserts tr1 = []" "tags s1 = tags s" by simp_all
      with ok2 that True show ?thesis by (simp add: tag_inserts_append)
    next
      case False
      with ok1 r1 have i: "tag_inserts tr1 = [(n, ?g)]"
        and k: "set (map t_slug (tags s1)) = set (?g # map t_slug (tags s))" by simp_all
      from k have "fresh_names (map t_slug (tags s1)) ns =
          fresh_names (?g # map t_slug (tags s)) ns" by (rule fresh_names_cong)
      with ok2 that i False show ?thesis by (simp add: tag_inserts_append)
    qed
    ultimately show ?thesis by (intro exI[of _ "tr1 @ tr2"]) blast
  qed
qed

lemma upload_image_inserts:
  assumes "upload_image u now io s = (r, s')"
  shows "\<exists>tr. trace s' = trace s @ tr \<and> tag_inserts tr = [] \<and> tags s' = tags s"
proof (cases io)
  case None
  with assms have "s' = s" by (simp add: upload_image_def)
  then show ?thesis by (intro exI[of _ "[]"]) (simp add: tag_inserts_def)
next
  case (Some img)
  let ?p = "u @ ''/'' @ decimal now @ ''.'' @ pop (split CHR ''.'' (file_name img))"
  obtain x s1 where a: "storage_upload ?p s = (x, s1)" by (cases "storage_upload ?p s") auto
  note e = storage_upload_effect[OF a]
  from assms Some a have "s' = s1"
    by (auto simp: upload_image_def Let_def split: sum.splits)
  with e show ?thesis
    by (intro exI[of _ "[(StorageUpload ?p, error_of x)]"]) (simp add: tag_inserts_def)
qed

lemma submit_validated_loop:
  assumes "upload_image u now io s = (Inr url, s1)"
    and "posts_insert
           \<lparr>np_title = v_title v, np_slug = generateSlug (v_title v),
            np_content = v_content v,
            np_excerpt = (if v_excerpt v \<noteq> [] then v_excerpt v else take 200 (v_content v)),
            np_featured_image = url, np_author_id = u\<rparr> s1 = (Inr row, s2)"
  shows "submit_validated u now io v s =
           (case tag_loop (p_id row) (if v_tags v \<noteq> [] then tagNames (v_tags v) else []) s2 of
              (Inl e, s3) \<Rightarrow> (Inl (Thrown e), s3)
            | (Inr _, s3) \<Rightarrow> (Inr (generateSlug (v_title v)), s3))"
  by (simp add: submit_validated_def assms Let_def)

lemma submit_validated_inserts:
  assumes "submit_validated u now io v s = (r, s')"
  shows "\<exists>tr. trace s' = trace s @ tr \<and>
           set (tag_inserts tr) \<subseteq>
             (\<lambda>n. (n, generateSlug n)) ` set (if v_tags v \<noteq> [] then tagNames (v_tags v) else []) \<and>
           ((\<exists>slug. r = Inr slug) \<longrightarrow>
              tag_inserts tr =
                map (\<lambda>n. (n, generateSlug n))
                  (fresh_names (map t_slug (tags s))
                     (if v_tags v \<noteq> [] then tagNames (v_tags v) else [])))"
proof -
  let ?N = "if v_tags v \<noteq> [] then tagNames (v_tags v) else []"
  obtain r1 s1 where a: "upload_image u now io s = (r1, s1)"
    by (cases "upload_image u now io s") auto
  from upload_image_inserts[OF a] obtain tr1 where
    tr1: "trace s1 = trace s @ tr1" "tag_inserts tr1 = []" "tags s1 = tags s" by blast
  show ?thesis
  proof (cases r1)
    case (Inl e)
    with assms a have "r = Inl (Thrown e)" "s' = s1" by (simp_all add: submit_validated_def)
    with tr1 show ?thesis by (intro exI[of _ tr1]) simp
  next
    case url: (Inr imageUrl)
    let ?np = "\<lparr>np_title = v_title v, np_slug = generateSlug (v_title v),
                 np_content = v_content v,
                 np_excerpt = (if v_excerpt v \<noteq> [] then v_excerpt v else take 200 (v_content v)),
                 np_featured_image = imageUrl, np_author_id = u\<rparr>"
    obtain r2 s2 where b: "posts_insert ?np s1 = (r2, s2)" by (cases "posts_insert ?np s1") auto
    note e2 = posts_insert_effect[OF b]
    let ?tr12 = "tr1 @ [(PostsInsert ?np, error_of r2)]"
    have t12: "trace s2 = trace s @ ?tr12" using tr1(1) e2 by simp
    have i12: "tag_inserts ?tr12 = []" using tr1(2) by (simp add: tag_inserts_def)
    have g12: "tags s2 = tags s" using tr1(3) e2 by simp
    show ?thesis
    proof (cases r2)
      case (Inl e)
      with assms a url b have "r = Inl (Thrown e)" "s' = s2"
        by (simp_all add: submit_validated_def Let_def)
      with t12 i12 show ?thesis by (intro exI[of _ ?tr12]) simp
    next
      case post: (Inr postData)
      obtain r3 s3 where c: "tag_loop (p_id postData) ?N s2 = (r3, s3)"
        by (cases "tag_loop (p_id postData) ?N s2") auto
      from tag_loop_inserts[OF c] obtain tr3 where
        all3: "trace s3 = trace s2 @ tr3 \<and>
          set (tag_inserts tr3) \<subseteq> (\<lambda>n. (n, generateSlug n)) ` set ?N \<and>
          (r3 = Inr () \<longrightarrow>
             tag_inserts tr3 =
               map (\<lambda>n. (n, generateSlug n)) (fresh_names (map t_slug (tags s2)) ?N))" ..
      note t3 = all3[THEN conjunct1]
      note sub3 = all3[THEN conjunct2, THEN conjunct1]
      note ok3 = all3[THEN conjunct2, THEN conjunct2]
      from a url have a': "upload_image u now io s = (Inr imageUrl, s1)" by simp
      from b post have b': "posts_insert ?np s1 = (Inr postData, s2)" by simp
      have res: "(r, s') = (case r3 of Inl e \<Rightarrow> (Inl (Thrown e), s3)
                            | Inr _ \<Rightarrow> (Inr (generateSlug (v_title v)), s3))"
        using assms unfolding submit_validated_loop[OF a' b'] c by simp
      then have s': "s' = s3" by (cases r3) simp_all
      from res have ok: "r3 = Inr ()" if "\<exists>slug. r = Inr slug"
        using that by (cases r3) auto
      let ?tr = "?tr12 @ tr3"
      have "trace s' = trace s @ ?tr" using t12 t3 s' by simp
      moreover have "set (tag_inserts ?tr) \<subseteq> (\<lambda>n. (n, generateSlug n)) ` set ?N"
        using sub3 i12 by (simp only: tag_inserts_append) simp
      moreover have "(\<exists>slug. r = Inr slug) \<longrightarrow> tag_inserts ?tr =
          map (\<lambda>n. (n, generateSlug n)) (fresh_names (map t_slug (tags s)) ?N)"
        using ok ok3 i12 g12 by (simp only: tag_inserts_append) simp
      ultimately show ?thesis by (intro exI[of _ ?tr]) blast
    qed
  qed
qed

lemma issued_append: "trace s' = trace s @ tr \<Longrightarrow> issued s s' = tr"
  by (simp add: issued_def)

lemma handleSubmit_inserts:
  assumes "handleSubmit user now f s = (fx, s')"
  shows "set (tag_inserts (issued s s')) \<subseteq>
           (\<lambda>n. (n, generateSlug n)) ` set (spec_tag_names (f_tags f)) \<and>
         (ToastSuccess msg \<in> set fx \<longrightarrow>
            tag_inserts (issued s s') =
              map (\<lambda>n. (n, generateSlug n))
                (fresh_names (map t_slug (tags s)) (spec_tag_names (f_tags f))))"
proof (cases user)
  case None
  with assms have "fx = []" "s' = s" by (simp_all add: handleSubmit_def)
  then show ?thesis by (simp add: issued_def tag_inserts_def)
next
  case (Some u)
  show ?thesis
  proof (cases "postSchema_parse f")
    case (Inl z)
    then obtain m ms where "z = ZodError m ms"
      by (auto simp: postSchema_parse_def split: list.splits)
    with assms Some Inl have "fx = [SetLoading True, ToastError m, SetLoading False]" "s' = s"
      by (simp_all add: handleSubmit_def try_block_def)
    then show ?thesis by (simp add: issued_def tag_inserts_def)
  next
    case (Inr v)
    then have v: "v_tags v = trim (f_tags f)"
      by (auto simp: postSchema_parse_def split: list.splits)
    obtain r s1 where sv: "submit_validated u now (f_image f) v s = (r, s1)"
      by (cases "submit_validated u now (f_image f) v s") auto
    from submit_validated_inserts[OF sv] obtain tr where
      all: "trace s1 = trace s @ tr \<and>
           set (tag_inserts tr) \<subseteq>
             (\<lambda>n. (n, generateSlug n)) ` set (if v_tags v \<noteq> [] then tagNames (v_tags v) else []) \<and>
           ((\<exists>slug. r = Inr slug) \<longrightarrow>
              tag_inserts tr =
                map (\<lambda>n. (n, generateSlug n))
                  (fresh_names (map t_slug (tags s))
                     (if v_tags v \<noteq> [] then tagNames (v_tags v) else [])))" ..
    note all' = all[unfolded v processed_tag_names]
    have "handleSubmit (Some u) now f s =
        (case r of Inr slug \<Rightarrow> (success_effects slug, s1)
         | Inl (ZodError m ms) \<Rightarrow> ([SetLoading True, ToastError m, SetLoading False], s1)
         | Inl (Thrown e) \<Rightarrow> (failure_effects e, s1))"
      unfolding handleSubmit_valid[OF Inr] sv by simp
    with assms Some have run: "(fx, s') =
        (case r of Inr slug \<Rightarrow> (success_effects slug, s1)
         | Inl (ZodError m ms) \<Rightarrow> ([SetLoading True, ToastError m, SetLoading False], s1)
         | Inl (Thrown e) \<Rightarrow> (failure_effects e, s1))"
      by simp
    then have s': "s' = s1" by (simp split: sum.splits exn.splits)
    from run have ok: "\<exists>slug. r = Inr slug" if "ToastSuccess msg \<in> set fx"
      using that by (auto simp: failure_effects_def split: sum.splits exn.splits)
    from all' s' have iss: "issued s s' = tr" by (simp add: issued_append)
    show ?thesis unfolding iss using all' ok by blast
  qed
qed

lemma handleSubmit_loop:
  assumes "postSchema_parse f = Inr v"
    and "upload_image u now (f_image f) s = (Inr url, s1)"
    and "posts_insert
           \<lparr>np_title = v_title v, np_slug = generateSlug (v_title v),
            np_content = v_content v,
            np_excerpt = (if v_excerpt v \<noteq> [] then v_excerpt v else take 200 (v_content v)),
            np_featured_image = url, np_author_id = u\<rparr> s1 = (Inr row, s2)"
  shows "handleSubmit (Some u) now f s =
           (case tag_loop (p_id row) (spec_tag_names (f_tags f)) s2 of
              (Inl e, s3) \<Rightarrow> (failure_effects e, s3)
            | (Inr _, s3) \<Rightarrow> (success_effects (generateSlug (v_title v)), s3))"
proof -
  from assms(1) have v: "v_tags v = trim (f_tags f)"
    by (auto simp: postSchema_parse_def split: list.splits)
  show ?thesis
    unfolding handleSubmit_valid[OF assms(1)] submit_validated_loop[OF assms(2,3)]
      v processed_tag_names
    by (simp split: prod.splits sum.splits)
qed

section \<open>Concrete runs\<close>

lemma demo_parse: "postSchema_parse demo_form = Inr demo_valid"
  by (simp add: postSchema_parse_def postSchema_issues_def demo_form_def demo_valid_def
      trim_def trim_by_def is_space_def)

lemma handleSubmit_demo:
  "handleSubmit (Some ''u1'') 0 demo_form s =
    (case submit_validated ''u1'' 0 None demo_valid s of
       (Inr slug, s') \<Rightarrow> (success_effects slug, s')
     | (Inl (ZodError m ms), s') \<Rightarrow> ([SetLoading True, ToastError m, SetLoading False], s')
     | (Inl (Thrown e), s') \<Rightarrow> (failure_effects e, s'))"
proof -
  have "f_image demo_form = None" by (simp add: demo_form_def)
  with handleSubmit_valid[OF demo_parse, of "''u1''" 0 s] show ?thesis by simp
qed

lemma handleSubmit_demo_Thrown:
  assumes "fst (submit_validated ''u1'' 0 None demo_valid s) = Inl (Thrown e)"
  shows "handleSubmit (Some ''u1'') 0 demo_form s =
     (failure_effects e, snd (submit_validated ''u1'' 0 None demo_valid s))"
  using assms unfolding handleSubmit_demo
  by (cases "submit_validated ''u1'' 0 None demo_valid s") simp

lemma handleSubmit_demo_Inr:
  assumes "fst (submit_validated ''u1'' 0 None demo_valid s) = Inr slug"
  shows "handleSubmit (Some ''u1'') 0 demo_form s =
     (success_effects slug, snd (submit_validated ''u1'' 0 None demo_valid s))"
  using assms unfolding handleSubmit_demo
  by (cases "submit_validated ''u1'' 0 None demo_valid s") simp

text \<open>The insert of the first tag is answered with a conflict.\<close>

lemma demo_conflict_result:
  "fst (submit_validated ''u1'' 0 None demo_valid
     (demo_backend\<lparr>faults := [None, None, Some (unique_violation ''tags_slug_key'')]\<rparr>)) =
   Inl (Thrown (unique_violation ''tags_slug_key''))"
  by code_simp

lemma demo_conflict_trace:
  "trace (snd (submit_validated ''u1'' 0 None demo_valid
     (demo_backend\<lparr>faults := [None, None, Some (unique_violation ''tags_slug_key'')]\<rparr>))) =
   [(PostsInsert \<lparr>np_title = ''Belfast Storm Warning'', np_slug = ''belfast-storm-warning'',
        np_content = ''Heavy rain is expected.'', np_excerpt = ''Heavy rain is expected.'',
        np_featured_image = None, np_author_id = ''u1''\<rparr>, None),
    (TagsSelectBySlug ''news'', None),
    (TagsInsert ''News'' ''news'', Some (unique_violation ''tags_slug_key''))]"
  by code_simp

lemma demo_conflict_run:
  "handleSubmit (Some ''u1'') 0 demo_form
     (demo_backend\<lparr>faults := [None, None, Some (unique_violation ''tags_slug_key'')]\<rparr>) =
   (failure_effects (unique_violation ''tags_slug_key''),
    snd (submit_validated ''u1'' 0 None demo_valid
     (demo_backend\<lparr>faults := [None, None, Some (unique_violation ''tags_slug_key'')]\<rparr>)))"
  by (rule handleSubmit_demo_Thrown) (rule demo_conflict_result)

lemma demo_conflict_issued:
  "issued (demo_backend\<lparr>faults := [None, None, Some (unique_violation ''tags_slug_key'')]\<rparr>)
     (snd (submit_validated ''u1'' 0 None demo_valid
       (demo_backend\<lparr>faults := [None, None, Some (unique_violation ''tags_slug_key'')]\<rparr>))) =
   [(PostsInsert \<lparr>np_title = ''Belfast Storm Warning'', np_slug = ''belfast-storm-warning'',
        np_content = ''Heavy rain is expected.'', np_excerpt = ''Heavy rain is expected.'',
        np_featured_image = None, np_author_id = ''u1''\<rparr>, None),
    (TagsSelectBySlug ''news'', None),
    (TagsInsert ''News'' ''news'', Some (unique_violation ''tags_slug_key''))]"
proof -
  have "trace (demo_backend\<lparr>faults := [None, None, Some (unique_violation ''tags_slug_key'')]\<rparr>)
      = []" by (simp add: demo_backend_def)
  then show ?thesis by (simp add: issued_def demo_conflict_trace)
qed

section \<open>Claims about post creation\<close>

text \<open>
  C1.  When, during post creation, the insert of a new tag row fails (for instance on the
  unique constraint of the tag slug), the whole operation is aborted with that error: the
  failed insert is the last request of the run, so no further tag is looked up or created,
  no further link is inserted and the tag is not queried again, and the handler ends in
  its failure branch with exactly this error.
\<close>

theorem tag_insert_failure_aborts:
  assumes "handleSubmit user now f s = (fx, s')"
    and "(TagsInsert name slug, Some e) \<in> set (issued s s')"
  shows "last (issued s s') = (TagsInsert name slug, Some e) \<and> fx = failure_effects e"
proof -
  have "is_checked (TagsInsert name slug)" by simp
  from handleSubmit_checked_failure[OF assms(1) this assms(2)] show ?thesis by simp
qed

theorem tag_insert_failure_aborts_witness:
  "last (issued (demo_backend\<lparr>faults := [None, None, Some (unique_violation ''tags_slug_key'')]\<rparr>)
     (snd (handleSubmit (Some ''u1'') 0 demo_form
        (demo_backend\<lparr>faults := [None, None, Some (unique_violation ''tags_slug_key'')]\<rparr>)))) =
     (TagsInsert ''News'' ''news'', Some (unique_violation ''tags_slug_key'')) \<and>
   fst (handleSubmit (Some ''u1'') 0 demo_form
        (demo_backend\<lparr>faults := [None, None, Some (unique_violation ''tags_slug_key'')]\<rparr>)) =
     failure_effects (unique_violation ''tags_slug_key'')"
proof -
  let ?b = "demo_backend\<lparr>faults := [None, None, Some (unique_violation ''tags_slug_key'')]\<rparr>"
  let ?X = "submit_validated ''u1'' 0 None demo_valid ?b"
  have mem: "(TagsInsert ''News'' ''news'', Some (unique_violation ''tags_slug_key''))
      \<in> set (issued ?b (snd ?X))" by (simp add: demo_conflict_issued)
  from tag_insert_failure_aborts[OF demo_conflict_run mem] show ?thesis
    by (simp add: demo_conflict_run)
qed

text \<open>The first link insert times out and the insert of the last tag meets a conflict.\<close>

lemma demo_swallowed_result:
  "fst (submit_validated ''u1'' 0 None demo_valid
     (demo_backend\<lparr>faults := [None, None, None, Some (BackendError ''timeout''),
        None, None, None, Some (BackendError ''conflict'')]\<rparr>)) =
   Inl (Thrown (BackendError ''conflict''))"
  by code_simp

lemma demo_swallowed_trace:
  "trace (snd (submit_validated ''u1'' 0 None demo_valid
     (demo_backend\<lparr>faults := [None, None, None, Some (BackendError ''timeout''),
        None, None, None, Some (BackendError ''conflict'')]\<rparr>))) =
   [(PostsInsert \<lparr>np_title = ''Belfast Storm Warning'', np_slug = ''belfast-storm-warning'',
        np_content = ''Heavy rain is expected.'', np_excerpt = ''Heavy rain is expected.'',
        np_featured_image = None, np_author_id = ''u1''\<rparr>, None),
    (TagsSelectBySlug ''news'', None),
    (TagsInsert ''News'' ''news'', None),
    (PostTagsInsert 0 1, Some (BackendError ''timeout'')),
    (TagsSelectBySlug ''news'', None),
    (PostTagsInsert 0 1, None),
    (TagsSelectBySlug ''weather'', None),
    (TagsInsert ''Weather'' ''weather'', Some (BackendError ''conflict''))]"
  by code_simp

text \<open>The insert of the post times out.\<close>

lemma demo_timeout_result:
  "fst (submit_validated ''u1'' 0 None demo_valid
     (demo_backend\<lparr>faults := [Some (BackendError ''timeout'')]\<rparr>)) =
   Inl (Thrown (BackendError ''timeout''))"
  by code_simp

lemma demo_timeout_trace:
  "trace (snd (submit_validated ''u1'' 0 None demo_valid
     (demo_backend\<lparr>faults := [Some (BackendError ''timeout'')]\<rparr>))) =
   [(PostsInsert \<lparr>np_title = ''Belfast Storm Warning'', np_slug = ''belfast-storm-warning'',
        np_content = ''Heavy rain is expected.'', np_excerpt = ''Heavy rain is expected.'',
        np_featured_image = None, np_author_id = ''u1''\<rparr>, Some (BackendError ''timeout''))]"
  by code_simp

lemma demo_trace_Nil: "trace (demo_backend\<lparr>faults := fs\<rparr>) = []"
  by (simp add: demo_backend_def)

text \<open>Every request is answered.\<close>

lemma demo_success_result:
  "fst (submit_validated ''u1'' 0 None demo_valid demo_backend) = Inr ''belfast-storm-warning''"
  by code_simp

lemma demo_success_trace:
  "trace (snd (submit_validated ''u1'' 0 None demo_valid demo_backend)) =
   [(PostsInsert \<lparr>np_title = ''Belfast Storm Warning'', np_slug = ''belfast-storm-warning'',
        np_content = ''Heavy rain is expected.'', np_excerpt = ''Heavy rain is expected.'',
        np_featured_image = None, np_author_id = ''u1''\<rparr>, None),
    (TagsSelectBySlug ''news'', None),
    (TagsInsert ''News'' ''news'', None),
    (PostTagsInsert 0 1, None),
    (TagsSelectBySlug ''news'', None),
    (PostTagsInsert 0 1, Some (unique_violation ''post_tags_post_id_tag_id_key'')),
    (TagsSelectBySlug ''weather'', None),
    (TagsInsert ''Weather'' ''weather'', None),
    (PostTagsInsert 0 3, None)]"
  by code_simp

lemma demo_success_posts:
  "posts (snd (submit_validated ''u1'' 0 None demo_valid demo_backend)) =
   [\<lparr>p_id = 0, p_title = ''Belfast Storm Warning'', p_slug = ''belfast-storm-warning'',
     p_content = ''Heavy rain is expected.'', p_excerpt = ''Heavy rain is expected.'',
     p_featured_image = None, p_author_id = ''u1'', p_created_at = 0, p_published = True\<rparr>]"
  by code_simp

lemma demo_success_links:
  "links_for_slug (snd (submit_validated ''u1'' 0 None demo_valid demo_backend)) 0 ''news'' =
   [\<lparr>pt_id = 2, pt_post_id = 0, pt_tag_id = 1, pt_created_at = 3\<rparr>]"
  by code_simp

lemma demo_names: "spec_tag_names (f_tags demo_form) = [''News'', ''news'', ''Weather'']"
  by code_simp

text \<open>
  C2, as stated: a backend failure in any step of post creation (image upload, post insert,
  tag find-or-create, link insert) is surfaced immediately, the remaining steps are
  skipped, the operation ends in the failed state with the first error encountered, and
  the message of that first failure reaches the caller.

  This does not hold.  In the run below the first failure is the time-out of a link
  insert: four more requests follow it, the error the handler ends with is the later
  conflict of a tag insert, and the message shown to the user is the fixed text
  \<open>Failed to create post\<close>.
\<close>

theorem link_failure_not_surfaced:
  "issued
     (demo_backend\<lparr>faults := [None, None, None, Some (BackendError ''timeout''),
        None, None, None, Some (BackendError ''conflict'')]\<rparr>)
     (snd (handleSubmit (Some ''u1'') 0 demo_form
       (demo_backend\<lparr>faults := [None, None, None, Some (BackendError ''timeout''),
          None, None, None, Some (BackendError ''conflict'')]\<rparr>))) =
     [(PostsInsert \<lparr>np_title = ''Belfast Storm Warning'', np_slug = ''belfast-storm-warning'',
          np_content = ''Heavy rain is expected.'', np_excerpt = ''Heavy rain is expected.'',
          np_featured_image = None, np_author_id = ''u1''\<rparr>, None),
      (TagsSelectBySlug ''news'', None),
      (TagsInsert ''News'' ''news'', None),
      (PostTagsInsert 0 1, Some (BackendError ''timeout'')),
      (TagsSelectBySlug ''news'', None),
      (PostTagsInsert 0 1, None),
      (TagsSelectBySlug ''weather'', None),
      (TagsInsert ''Weather'' ''weather'', Some (BackendError ''conflict''))] \<and>
   fst (handleSubmit (Some ''u1'') 0 demo_form
       (demo_backend\<lparr>faults := [None, None, None, Some (BackendError ''timeout''),
          None, None, None, Some (BackendError ''conflict'')]\<rparr>)) =
     [SetLoading True, ConsoleError ''Error creating post:'' (BackendError ''conflict''),
      ToastError ''Failed to create post'', SetLoading False]"
proof -
  note run = handleSubmit_demo_Thrown[OF demo_swallowed_result]
  show ?thesis
    by (simp add: run issued_def demo_swallowed_trace demo_trace_Nil failure_effects_def)
qed

text \<open>
  C2, amended: for the image upload, the post insert and the tag insert, the requests
  whose error the handler checks, a failure is surfaced immediately.  The failed request
  is the last request of the run (the remaining steps are skipped, nothing is retried and
  nothing is undone: every table still begins with the rows it had), no checked request
  failed before it, and the handler ends in its failure branch: the error goes to
  \<open>console.error\<close> and the user is shown the fixed message \<open>Failed to create post\<close>.
\<close>

theorem checked_failure_surfaces:
  assumes "handleSubmit user now f s = (fx, s')"
    and "is_checked rq"
    and "(rq, Some e) \<in> set (issued s s')"
  shows "last (issued s s') = (rq, Some e) \<and>
         checked_failures (butlast (issued s s')) = [] \<and>
         fx = [SetLoading True, ConsoleError ''Error creating post:'' e,
               ToastError ''Failed to create post'', SetLoading False] \<and>
         kept s s'"
proof -
  from handleSubmit_run[OF assms(1)] have "safe_step s s'" by blast
  then have "kept s s'" by (simp add: safe_step_def)
  with handleSubmit_checked_failure[OF assms] show ?thesis
    by (simp add: failure_effects_def)
qed

theorem checked_failure_surfaces_witness:
  "is_checked (PostsInsert \<lparr>np_title = ''Belfast Storm Warning'',
        np_slug = ''belfast-storm-warning'', np_content = ''Heavy rain is expected.'',
        np_excerpt = ''Heavy rain is expected.'', np_featured_image = None,
        np_author_id = ''u1''\<rparr>) \<and>
   issued (demo_backend\<lparr>faults := [Some (BackendError ''timeout'')]\<rparr>)
     (snd (handleSubmit (Some ''u1'') 0 demo_form
        (demo_backend\<lparr>faults := [Some (BackendError ''timeout'')]\<rparr>))) =
     [(PostsInsert \<lparr>np_title = ''Belfast Storm Warning'',
        np_slug = ''belfast-storm-warning'', np_content = ''Heavy rain is expected.'',
        np_excerpt = ''Heavy rain is expected.'', np_featured_image = None,
        np_author_id = ''u1''\<rparr>, Some (BackendError ''timeout''))] \<and>
   fst (handleSubmit (Some ''u1'') 0 demo_form
        (demo_backend\<lparr>faults := [Some (BackendError ''timeout'')]\<rparr>)) =
     [SetLoading True, ConsoleError ''Error creating post:'' (BackendError ''timeout''),
      ToastError ''Failed to create post'', SetLoading False] \<and>
   kept (demo_backend\<lparr>faults := [Some (BackendError ''timeout'')]\<rparr>)
     (snd (handleSubmit (Some ''u1'') 0 demo_form
        (demo_backend\<lparr>faults := [Some (BackendError ''timeout'')]\<rparr>)))"
proof -
  let ?b = "demo_backend\<lparr>faults := [Some (BackendError ''timeout'')]\<rparr>"
  let ?np = "\<lparr>np_title = ''Belfast Storm Warning'',
        np_slug = ''belfast-storm-warning'', np_content = ''Heavy rain is expected.'',
        np_excerpt = ''Heavy rain is expected.'', np_featured_image = None,
        np_author_id = ''u1''\<rparr>"
  note run = handleSubmit_demo_Thrown[OF demo_timeout_result]
  have iss: "issued ?b (snd (submit_validated ''u1'' 0 None demo_valid ?b)) =
      [(PostsInsert ?np, Some (BackendError ''timeout''))]"
    by (simp add: issued_def demo_timeout_trace demo_trace_Nil)
  have chk: "is_checked (PostsInsert ?np)" by simp
  have mem: "(PostsInsert ?np, Some (BackendError ''timeout''))
      \<in> set (issued ?b (snd (submit_validated ''u1'' 0 None demo_valid ?b)))"
    by (simp only: iss) simp
  from checked_failure_surfaces[OF run chk mem] show ?thesis
    by (simp add: run iss)
qed

text \<open>The run in which every request is answered, step by step.\<close>

lemma demo_post_insert:
  "fst (posts_insert
     \<lparr>np_title = v_title demo_valid, np_slug = generateSlug (v_title demo_valid),
      np_content = v_content demo_valid,
      np_excerpt = (if v_excerpt demo_valid \<noteq> [] then v_excerpt demo_valid
                    else take 200 (v_content demo_valid)),
      np_featured_image = None, np_author_id = ''u1''\<rparr> demo_backend) =
   Inr \<lparr>p_id = 0, p_title = ''Belfast Storm Warning'', p_slug = ''belfast-storm-warning'',
        p_content = ''Heavy rain is expected.'', p_excerpt = ''Heavy rain is expected.'',
        p_featured_image = None, p_author_id = ''u1'', p_created_at = 0, p_published = True\<rparr>"
  by code_simp

lemma demo_upload: "upload_image ''u1'' 0 (f_image demo_form) demo_backend = (Inr None, demo_backend)"
  by (simp add: upload_image_def demo_form_def)

lemma demo_loop_result:
  "fst (tag_loop 0 [''News'', ''news'', ''Weather'']
     (snd (posts_insert
       \<lparr>np_title = v_title demo_valid, np_slug = generateSlug (v_title demo_valid),
        np_content = v_content demo_valid,
        np_excerpt = (if v_excerpt demo_valid \<noteq> [] then v_excerpt demo_valid
                      else take 200 (v_content demo_valid)),
        np_featured_image = None, np_author_id = ''u1''\<rparr> demo_backend))) = Inr ()"
  by code_simp

text \<open>
  C3.  The names processed are exactly the comma-separated entries of the tags input, each
  trimmed, the empty ones dropped.  Once the upload and the insert of the post have
  succeeded, the handler does what the loop over these names does: it ends in the state
  the loop ends in, with the success effects when the loop completes and the failure
  effects of the loop's error otherwise.  In the requests of any run, every tag insert
  carries one of these names, unchanged, together with the slug of that name.  When post
  creation completes, the tag lookups are those of the slugs of these names, in order, and
  the tag inserts are those of the names whose slug was neither in the table nor the slug
  of an earlier name, in order.  And whatever the run did, a post has at most one link to
  the tag of a given slug afterwards (given that the unique constraints held before), also
  when a name, or names with the same slug, occur more than once.
\<close>

theorem tag_names_and_links:
  assumes "handleSubmit user now f s = (fx, s')"
  shows "(user = Some u \<and> postSchema_parse f = Inr v \<and>
          upload_image u now (f_image f) s = (Inr url, su) \<and>
          posts_insert
            \<lparr>np_title = v_title v, np_slug = generateSlug (v_title v),
             np_content = v_content v,
             np_excerpt = (if v_excerpt v \<noteq> [] then v_excerpt v else take 200 (v_content v)),
             np_featured_image = url, np_author_id = u\<rparr> su = (Inr row, sp) \<longrightarrow>
            (fx, s') =
              (case tag_loop (p_id row) (spec_tag_names (f_tags f)) sp of
                 (Inl e, s3) \<Rightarrow> (failure_effects e, s3)
               | (Inr _, s3) \<Rightarrow> (success_effects (generateSlug (v_title v)), s3))) \<and>
         set (tag_inserts (issued s s')) \<subseteq>
           (\<lambda>n. (n, generateSlug n)) ` set (spec_tag_names (f_tags f)) \<and>
         (ToastSuccess ''Post created successfully!'' \<in> set fx \<longrightarrow>
            lookups (issued s s') =
              map (\<lambda>n. TagsSelectBySlug (generateSlug n)) (spec_tag_names (f_tags f)) \<and>
            tag_inserts (issued s s') =
              map (\<lambda>n. (n, generateSlug n))
                (fresh_names (map t_slug (tags s)) (spec_tag_names (f_tags f)))) \<and>
         (unique_keys s \<longrightarrow> length (links_for_slug s' pid slug) \<le> 1)"
proof -
  from handleSubmit_run[OF assms] obtain tr where
    tr: "trace s' = trace s @ tr" and st: "safe_step s s'" and
    cases: "(user = None \<and> fx = [] \<and> s' = s \<and> tr = []) \<or>
            (\<exists>m ms. user \<noteq> None \<and> postSchema_issues f = m # ms \<and>
               fx = [SetLoading True, ToastError m, SetLoading False] \<and> s' = s \<and> tr = []) \<or>
            (\<exists>e. user \<noteq> None \<and> postSchema_issues f = [] \<and> fx = failure_effects e \<and>
               run_shape (Some e) tr) \<or>
            (user \<noteq> None \<and> postSchema_issues f = [] \<and>
               fx = success_effects (generateSlug (trim (f_title f))) \<and>
               run_shape None tr \<and> posts s' \<noteq> posts s \<and>
               lookups tr = map (\<lambda>n. TagsSelectBySlug (generateSlug n))
                 (if trim (f_tags f) \<noteq> [] then tagNames (trim (f_tags f)) else []))"
    by (elim exE conjE) (rule that)
  from tr have iss: "issued s s' = tr" by (simp add: issued_def)
  have 1: "(fx, s') =
      (case tag_loop (p_id row) (spec_tag_names (f_tags f)) sp of
         (Inl e, s3) \<Rightarrow> (failure_effects e, s3)
       | (Inr _, s3) \<Rightarrow> (success_effects (generateSlug (v_title v)), s3))"
    if "user = Some u \<and> postSchema_parse f = Inr v \<and>
        upload_image u now (f_image f) s = (Inr url, su) \<and>
        posts_insert
          \<lparr>np_title = v_title v, np_slug = generateSlug (v_title v),
           np_content = v_content v,
           np_excerpt = (if v_excerpt v \<noteq> [] then v_excerpt v else take 200 (v_content v)),
           np_featured_image = url, np_author_id = u\<rparr> su = (Inr row, sp)"
  proof -
    from that have u: "user = Some u" by (rule conjunct1)
    note p = that[THEN conjunct2, THEN conjunct1]
    note a = that[THEN conjunct2, THEN conjunct2, THEN conjunct1]
    note b = that[THEN conjunct2, THEN conjunct2, THEN conjunct2]
    from assms u show ?thesis by (simp only: handleSubmit_loop[OF p a b])
  qed
  note ins = handleSubmit_inserts[OF assms, of "''Post created successfully!''"]
  have 3: "lookups (issued s s') =
        map (\<lambda>n. TagsSelectBySlug (generateSlug n)) (spec_tag_names (f_tags f))"
    if "ToastSuccess ''Post created successfully!'' \<in> set fx"
  proof -
    from cases that have "lookups tr = map (\<lambda>n. TagsSelectBySlug (generateSlug n))
                 (if trim (f_tags f) \<noteq> [] then tagNames (trim (f_tags f)) else [])"
      by (auto simp: failure_effects_def)
    then show ?thesis unfolding iss by (simp only: processed_tag_names)
  qed
  have 4: "length (links_for_slug s' pid slug) \<le> 1" if "unique_keys s"
  proof -
    from st that have "unique_keys s'" by (simp add: safe_step_def)
    then show ?thesis by (rule links_for_slug_bound)
  qed
  from 1 ins 3 4 show ?thesis by blast
qed

theorem tag_names_and_links_witness:
  "unique_keys demo_backend \<and>
   postSchema_parse demo_form = Inr demo_valid \<and>
   upload_image ''u1'' 0 (f_image demo_form) demo_backend = (Inr None, demo_backend) \<and>
   fst (posts_insert
     \<lparr>np_title = v_title demo_valid, np_slug = generateSlug (v_title demo_valid),
      np_content = v_content demo_valid,
      np_excerpt = (if v_excerpt demo_valid \<noteq> [] then v_excerpt demo_valid
                    else take 200 (v_content demo_valid)),
      np_featured_image = None, np_author_id = ''u1''\<rparr> demo_backend) =
   Inr \<lparr>p_id = 0, p_title = ''Belfast Storm Warning'', p_slug = ''belfast-storm-warning'',
        p_content = ''Heavy rain is expected.'', p_excerpt = ''Heavy rain is expected.'',
        p_featured_image = None, p_author_id = ''u1'', p_created_at = 0, p_published = True\<rparr> \<and>
   spec_tag_names (f_tags demo_form) = [''News'', ''news'', ''Weather''] \<and>
   snd (handleSubmit (Some ''u1'') 0 demo_form demo_backend) =
     snd (tag_loop 0 [''News'', ''news'', ''Weather'']
       (snd (posts_insert
         \<lparr>np_title = v_title demo_valid, np_slug = generateSlug (v_title demo_valid),
          np_content = v_content demo_valid,
          np_excerpt = (if v_excerpt demo_valid \<noteq> [] then v_excerpt demo_valid
                        else take 200 (v_content demo_valid)),
          np_featured_image = None, np_author_id = ''u1''\<rparr> demo_backend))) \<and>
   ToastSuccess ''Post created successfully!''
     \<in> set (fst (handleSubmit (Some ''u1'') 0 demo_form demo_backend)) \<and>
   lookups (issued demo_backend (snd (handleSubmit (Some ''u1'') 0 demo_form demo_backend))) =
     [TagsSelectBySlug ''news'', TagsSelectBySlug ''news'', TagsSelectBySlug ''weather''] \<and>
   tag_inserts (issued demo_backend (snd (handleSubmit (Some ''u1'') 0 demo_form demo_backend))) =
     [(''News'', ''news''), (''Weather'', ''weather'')] \<and>
   fresh_names (map t_slug (tags demo_backend)) [''News'', ''news'', ''Weather''] =
     [''News'', ''Weather''] \<and>
   length (links_for_slug (snd (handleSubmit (Some ''u1'') 0 demo_form demo_backend)) 0 ''news'')
     = 1"
proof -
  let ?np = "\<lparr>np_title = v_title demo_valid, np_slug = generateSlug (v_title demo_valid),
      np_content = v_content demo_valid,
      np_excerpt = (if v_excerpt demo_valid \<noteq> [] then v_excerpt demo_valid
                    else take 200 (v_content demo_valid)),
      np_featured_image = None, np_author_id = ''u1''\<rparr>"
  let ?row = "\<lparr>p_id = 0, p_title = ''Belfast Storm Warning'', p_slug = ''belfast-storm-warning'',
        p_content = ''Heavy rain is expected.'', p_excerpt = ''Heavy rain is expected.'',
        p_featured_image = None, p_author_id = ''u1'', p_created_at = 0, p_published = True\<rparr>"
  let ?s2 = "snd (posts_insert ?np demo_backend)"
  let ?L = "tag_loop 0 [''News'', ''news'', ''Weather''] ?s2"
  note run = handleSubmit_demo_Inr[OF demo_success_result]
  have u: "unique_keys demo_backend" by (simp add: unique_keys_def demo_backend_def)
  have ok: "ToastSuccess ''Post created successfully!''
     \<in> set (success_effects ''belfast-storm-warning'')" by (simp add: success_effects_def)
  have sl: "generateSlug ''News'' = ''news''" "generateSlug ''news'' = ''news''"
    "generateSlug ''Weather'' = ''weather''"
    by code_simp+
  have fr: "fresh_names (map t_slug (tags demo_backend)) [''News'', ''news'', ''Weather''] =
     [''News'', ''Weather'']" by (simp add: demo_backend_def sl)
  have ins: "posts_insert ?np demo_backend = (Inr ?row, ?s2)"
    using demo_post_insert by (simp add: prod_eq_iff)
  have pid: "p_id ?row = 0" by simp
  have loop: "(case ?L of (Inl e, s3) \<Rightarrow> (failure_effects e, s3)
                | (Inr _, s3) \<Rightarrow> (success_effects g, s3)) = (success_effects g, snd ?L)" for g
    using demo_loop_result by (cases ?L) (simp only: fst_conv snd_conv prod.case sum.case)
  note inst = tag_names_and_links[OF run, where u = "''u1''" and v = demo_valid and
      url = None and su = demo_backend and row = "?row" and sp = "?s2" and
      pid = 0 and slug = "''news''"]
  from inst demo_parse demo_upload ins
  have "(success_effects ''belfast-storm-warning'',
         snd (submit_validated ''u1'' 0 None demo_valid demo_backend)) =
      (case tag_loop (p_id ?row) (spec_tag_names (f_tags demo_form)) ?s2 of
         (Inl e, s3) \<Rightarrow> (failure_effects e, s3)
       | (Inr _, s3) \<Rightarrow> (success_effects (generateSlug (v_title demo_valid)), s3))"
    by blast
  then have "(success_effects ''belfast-storm-warning'',
         snd (submit_validated ''u1'' 0 None demo_valid demo_backend)) =
      (success_effects (generateSlug (v_title demo_valid)), snd ?L)"
    unfolding demo_names pid loop .
  then have 1: "snd (submit_validated ''u1'' 0 None demo_valid demo_backend) = snd ?L"
    by (simp only: prod.inject)
  from inst ok
  have 2: "lookups (issued demo_backend (snd (submit_validated ''u1'' 0 None demo_valid demo_backend)))
      = map (\<lambda>n. TagsSelectBySlug (generateSlug n)) (spec_tag_names (f_tags demo_form))"
    "tag_inserts (issued demo_backend (snd (submit_validated ''u1'' 0 None demo_valid demo_backend)))
      = map (\<lambda>n. (n, generateSlug n))
          (fresh_names (map t_slug (tags demo_backend)) (spec_tag_names (f_tags demo_form)))"
    by blast+
  have 3: "lookups (issued demo_backend (snd (submit_validated ''u1'' 0 None demo_valid demo_backend)))
      = [TagsSelectBySlug ''news'', TagsSelectBySlug ''news'', TagsSelectBySlug ''weather'']"
    unfolding 2(1) demo_names by (simp add: sl)
  have 4: "tag_inserts (issued demo_backend (snd (submit_validated ''u1'' 0 None demo_valid demo_backend)))
      = [(''News'', ''news''), (''Weather'', ''weather'')]"
    unfolding 2(2) demo_names fr by (simp add: sl)
  have 5: "length (links_for_slug (snd (submit_validated ''u1'' 0 None demo_valid demo_backend))
      0 ''news'') = 1" by (simp add: demo_success_links)
  have hs: "fst (handleSubmit (Some ''u1'') 0 demo_form demo_backend) =
      success_effects ''belfast-storm-warning''"
    "snd (handleSubmit (Some ''u1'') 0 demo_form demo_backend) =
      snd (submit_validated ''u1'' 0 None demo_valid demo_backend)"
    by (simp_all only: run fst_conv snd_conv)
  show ?thesis
    unfolding hs
    by (intro conjI) (rule u demo_parse demo_upload demo_post_insert demo_names 1 ok 3 4 fr 5)+
qed

lemma spec_invalid_issues: "spec_invalid f = (postSchema_issues f \<noteq> [])"
  by (auto simp: spec_invalid_def postSchema_issues_def)

text \<open>
  C7.  A submission whose input violates the constraints of the form never reaches the
  backend: the run leaves the backend as it was, tables and trace (no upload, no post
  insert, no tag lookup or insert, no link insert), and for a signed-in user the handler
  reports the message of the first validation issue.
\<close>

theorem invalid_input_is_local:
  assumes "spec_invalid f"
  shows "snd (handleSubmit user now f s) = s \<and>
         postSchema_issues f \<noteq> [] \<and>
         (user \<noteq> None \<longrightarrow>
            fst (handleSubmit user now f s) =
              [SetLoading True, ToastError (hd (postSchema_issues f)), SetLoading False])"
proof -
  from assms obtain m ms where i: "postSchema_issues f = m # ms"
    by (cases "postSchema_issues f") (simp_all add: spec_invalid_issues)
  then have p: "postSchema_parse f = Inl (ZodError m ms)" by (simp add: postSchema_parse_def)
  show ?thesis
    by (cases user) (simp_all add: handleSubmit_def try_block_def p i)
qed

theorem invalid_input_is_local_witness:
  "spec_invalid (demo_form\<lparr>f_title := ''   ''\<rparr>) \<and>
   snd (handleSubmit (Some ''u1'') 0 (demo_form\<lparr>f_title := ''   ''\<rparr>) demo_backend) =
     demo_backend \<and>
   fst (handleSubmit (Some ''u1'') 0 (demo_form\<lparr>f_title := ''   ''\<rparr>) demo_backend) =
     [SetLoading True, ToastError ''Title is required'', SetLoading False]"
proof -
  have inv: "spec_invalid (demo_form\<lparr>f_title := ''   ''\<rparr>)"
    by (simp add: spec_invalid_def trim_def trim_by_def is_space_def)
  have hd: "hd (postSchema_issues (demo_form\<lparr>f_title := ''   ''\<rparr>)) = ''Title is required''"
    by (simp add: postSchema_issues_def trim_def trim_by_def is_space_def)
  from invalid_input_is_local[OF inv, of "Some ''u1''" 0 demo_backend] inv hd
  show ?thesis by simp
qed

text \<open>
  C10.  The post that a submission inserts carries the trimmed content, and its excerpt
  is the trimmed excerpt of the form when that is not empty and the first 200 characters
  of the content otherwise.  A run inserts at most this one post, and a run that completes
  has inserted it.
\<close>

theorem excerpt_default:
  assumes "handleSubmit user now f s = (fx, s')"
  shows "(ToastSuccess ''Post created successfully!'' \<in> set fx \<longrightarrow> posts s' \<noteq> posts s) \<and>
         (posts s' \<noteq> posts s \<longrightarrow>
            (\<exists>row. posts s' = posts s @ [row] \<and>
               p_content row = trim (f_content f) \<and>
               p_excerpt row =
                 (if trim (f_excerpt f) = [] then take 200 (p_content row)
                  else trim (f_excerpt f))))"
proof -
  from handleSubmit_run[OF assms] obtain tr where
    cases: "(user = None \<and> fx = [] \<and> s' = s \<and> tr = []) \<or>
            (\<exists>m ms. user \<noteq> None \<and> postSchema_issues f = m # ms \<and>
               fx = [SetLoading True, ToastError m, SetLoading False] \<and> s' = s \<and> tr = []) \<or>
            (\<exists>e. user \<noteq> None \<and> postSchema_issues f = [] \<and> fx = failure_effects e \<and>
               run_shape (Some e) tr) \<or>
            (user \<noteq> None \<and> postSchema_issues f = [] \<and>
               fx = success_effects (generateSlug (trim (f_title f))) \<and>
               run_shape None tr \<and> posts s' \<noteq> posts s \<and>
               lookups tr = map (\<lambda>n. TagsSelectBySlug (generateSlug n))
                 (if trim (f_tags f) \<noteq> [] then tagNames (trim (f_tags f)) else []))"
    and rows: "posts s' = posts s \<or>
            (\<exists>row. posts s' = posts s @ [row] \<and>
               p_title row = trim (f_title f) \<and>
               p_slug row = generateSlug (trim (f_title f)) \<and>
               p_content row = trim (f_content f) \<and>
               p_excerpt row =
                 (if trim (f_excerpt f) \<noteq> [] then trim (f_excerpt f)
                  else take 200 (trim (f_content f))) \<and>
               user = Some (p_author_id row))"
    by (elim exE conjE) (rule that)
  have a: "posts s' \<noteq> posts s" if "ToastSuccess ''Post created successfully!'' \<in> set fx"
    using cases that by (auto simp: failure_effects_def)
  have b: "\<exists>row. posts s' = posts s @ [row] \<and>
               p_content row = trim (f_content f) \<and>
               p_excerpt row =
                 (if trim (f_excerpt f) = [] then take 200 (p_content row)
                  else trim (f_excerpt f))" if "posts s' \<noteq> posts s"
  proof -
    from rows that obtain row where "posts s' = posts s @ [row]"
      "p_content row = trim (f_content f)"
      "p_excerpt row =
                 (if trim (f_excerpt f) \<noteq> [] then trim (f_excerpt f)
                  else take 200 (trim (f_content f)))" by blast
    then show ?thesis by (intro exI[of _ row]) simp
  qed
  from a b show ?thesis by blast
qed

theorem excerpt_default_witness:
  "ToastSuccess ''Post created successfully!''
     \<in> set (fst (handleSubmit (Some ''u1'') 0 demo_form demo_backend)) \<and>
   trim (f_excerpt demo_form) = [] \<and>
   (\<exists>row. posts (snd (handleSubmit (Some ''u1'') 0 demo_form demo_backend)) = [row] \<and>
      p_content row = ''Heavy rain is expected.'' \<and>
      p_excerpt row = take 200 (p_content row))"
proof -
  note run = handleSubmit_demo_Inr[OF demo_success_result]
  have ok: "ToastSuccess ''Post created successfully!''
     \<in> set (success_effects ''belfast-storm-warning'')" by (simp add: success_effects_def)
  have ex: "trim (f_excerpt demo_form) = []"
    by (simp add: demo_form_def trim_def trim_by_def is_space_def)
  have co: "trim (f_content demo_form) = ''Heavy rain is expected.''"
    by (simp add: demo_form_def trim_def trim_by_def is_space_def)
  have p0: "posts demo_backend = []" by (simp add: demo_backend_def)
  from excerpt_default[OF run] ok
  have "\<exists>row. posts (snd (submit_validated ''u1'' 0 None demo_valid demo_backend)) =
        posts demo_backend @ [row] \<and>
        p_content row = trim (f_content demo_form) \<and>
        p_excerpt row = (if trim (f_excerpt demo_form) = [] then take 200 (p_content row)
                  else trim (f_excerpt demo_form))" by blast
  then show ?thesis using ok ex by (simp add: run co p0)
qed

section \<open>Tags that differ in letter case\<close>

lemma generateSlug_toLowerCase:
  "toLowerCase a = toLowerCase b \<Longrightarrow> generateSlug a = generateSlug b"
  by (simp add: generateSlug_def)

lemma resolve_tag_created_or_found:
  assumes "resolve_tag p a s0 = (Inr (), s1)"
  shows "\<exists>t. filter (\<lambda>t. t_slug t = generateSlug a) (tags s1) = [t] \<and>
             (generateSlug a \<notin> set (map t_slug (tags s0)) \<longrightarrow> t_name t = a)"
proof -
  let ?g = "generateSlug a"
  obtain found s' where l: "tags_select_by_slug ?g s0 = (found, s')"
    by (cases "tags_select_by_slug ?g s0") auto
  note e1 = tags_select_by_slug_effect[OF l]
  show ?thesis
  proof (cases "case found of Inl _ \<Rightarrow> None | Inr existingTag \<Rightarrow> existingTag")
    case (Some t)
    then have f: "found = Inr (Some t)" by (auto split: sum.splits)
    with e1 have "maybeSingle (filter (\<lambda>t. t_slug t = ?g) (tags s0)) = Inr (Some t)" by auto
    then have ft: "filter (\<lambda>t. t_slug t = ?g) (tags s0) = [t]" by (rule maybeSingle_Some)
    then have "t \<in> set (filter (\<lambda>t. t_slug t = ?g) (tags s0))" by simp
    then have "t \<in> set (tags s0)" "t_slug t = ?g" by simp_all
    then have "t_slug t \<in> t_slug ` set (tags s0)" by (intro imageI)
    then have old: "?g \<in> set (map t_slug (tags s0))" using \<open>t_slug t = ?g\<close> by simp
    obtain x s2 where k: "post_tags_insert p (t_id t) s' = (x, s2)"
      by (cases "post_tags_insert p (t_id t) s'") auto
    from assms l Some k have "s1 = s2" by (simp add: resolve_tag_def)
    with post_tags_insert_effect[OF k] e1 have "tags s1 = tags s0" by simp
    with ft old show ?thesis by simp
  next
    case None
    obtain y s2 where i: "tags_insert a ?g s' = (y, s2)"
      by (cases "tags_insert a ?g s'") auto
    note e2 = tags_insert_effect[OF i]
    show ?thesis
    proof (cases y)
      case (Inl e)
      with assms l None i show ?thesis by (simp add: resolve_tag_def)
    next
      case (Inr t)
      obtain x s3 where k: "post_tags_insert p (t_id t) s2 = (x, s3)"
        by (cases "post_tags_insert p (t_id t) s2") auto
      from assms l None i Inr k have "s1 = s3" by (simp add: resolve_tag_def)
      with post_tags_insert_effect[OF k] have t13: "tags s1 = tags s2" by simp
      from e2 Inr e1 have row: "t_name t = a" "t_slug t = ?g"
        "?g \<notin> set (map t_slug (tags s0))" "tags s2 = tags s0 @ [t]" by auto
      have "filter (\<lambda>t. t_slug t = ?g) (tags s0) = []"
        unfolding filter_empty_conv
      proof (intro ballI notI)
        fix x assume "x \<in> set (tags s0)" "t_slug x = ?g"
        then have "?g \<in> t_slug ` set (tags s0)" by (metis imageI)
        with row(3) show False by simp
      qed
      with row t13 show ?thesis by simp
    qed
  qed
qed

lemma resolve_tag_existing:
  assumes "answers s" and "filter (\<lambda>t. t_slug t = generateSlug n) (tags s) = [t]"
    and "resolve_tag q n s = (r, s')"
  shows "r = Inr () \<and> tags s' = tags s \<and>
         (\<exists>x. issued s s' =
            [(TagsSelectBySlug (generateSlug n), None), (PostTagsInsert q (t_id t), x)])"
proof -
  let ?g = "generateSlug n"
  obtain found s1 where l: "tags_select_by_slug ?g s = (found, s1)"
    by (cases "tags_select_by_slug ?g s") auto
  note e1 = tags_select_by_slug_effect[OF l]
  from e1 assms(1,2) have f: "found = Inr (Some t)" by (simp add: maybeSingle_def)
  obtain x s2 where k: "post_tags_insert q (t_id t) s1 = (x, s2)"
    by (cases "post_tags_insert q (t_id t) s1") auto
  note e2 = post_tags_insert_effect[OF k]
  from assms(3) l f k have r: "r = Inr ()" "s' = s2" by (simp_all add: resolve_tag_def)
  from e1 e2 f r have "trace s' = trace s @
      [(TagsSelectBySlug ?g, None), (PostTagsInsert q (t_id t), error_of x)]"
    by (simp add: error_of_def)
  then have "issued s s' = [(TagsSelectBySlug ?g, None), (PostTagsInsert q (t_id t), error_of x)]"
    by (simp add: issued_def)
  with e1 e2 r show ?thesis by simp
qed

text \<open>
  C6.  Tag names that differ only in letter case have the same slug.  When the first name
  has been resolved and the second is resolved afterwards (in a state with the same tags,
  its lookup being answered), the lookup finds the one tag of that slug and the link is
  made with its identifier: the tags table is unchanged, so no second row exists, and the
  stored name is the one the tag was created with, the first name if it was new.
\<close>

theorem case_variants_share_tag:
  assumes "toLowerCase a = toLowerCase b"
    and "resolve_tag p a s0 = (Inr (), s1)"
    and "tags s1' = tags s1" and "answers s1'"
    and "resolve_tag q b s1' = (r, s2)"
  shows "generateSlug b = generateSlug a \<and> r = Inr () \<and> tags s2 = tags s1 \<and>
         (\<exists>t x. filter (\<lambda>t. t_slug t = generateSlug a) (tags s2) = [t] \<and>
            (generateSlug a \<notin> set (map t_slug (tags s0)) \<longrightarrow> t_name t = a) \<and>
            issued s1' s2 =
              [(TagsSelectBySlug (generateSlug a), None), (PostTagsInsert q (t_id t), x)])"
proof -
  from assms(1) have g: "generateSlug b = generateSlug a"
    by (rule generateSlug_toLowerCase[symmetric])
  from resolve_tag_created_or_found[OF assms(2)] obtain t where
    t: "filter (\<lambda>t. t_slug t = generateSlug a) (tags s1) = [t]"
      "generateSlug a \<notin> set (map t_slug (tags s0)) \<longrightarrow> t_name t = a" by blast
  from t(1) assms(3) g have "filter (\<lambda>t. t_slug t = generateSlug b) (tags s1') = [t]" by simp
  from resolve_tag_existing[OF assms(4) this assms(5)] obtain x where
    "r = Inr ()" "tags s2 = tags s1'"
    "issued s1' s2 = [(TagsSelectBySlug (generateSlug b), None), (PostTagsInsert q (t_id t), x)]"
    by blast
  with g t assms(3) show ?thesis by (intro conjI exI[of _ t] exI[of _ x]) simp_all
qed

lemma demo_first_tag:
  "fst (resolve_tag 0 ''Politics'' demo_backend) = Inr ()"
  "tags (snd (resolve_tag 0 ''Politics'' demo_backend)) =
     [\<lparr>t_id = 0, t_name = ''Politics'', t_slug = ''politics'', t_created_at = 1\<rparr>]"
  "answers (snd (resolve_tag 0 ''Politics'' demo_backend))"
  by code_simp+

theorem case_variants_share_tag_witness:
  "toLowerCase ''Politics'' = toLowerCase ''politics'' \<and>
   fst (resolve_tag 0 ''Politics'' demo_backend) = Inr () \<and>
   answers (snd (resolve_tag 0 ''Politics'' demo_backend)) \<and>
   fst (resolve_tag 1 ''politics'' (snd (resolve_tag 0 ''Politics'' demo_backend))) = Inr () \<and>
   tags (snd (resolve_tag 1 ''politics'' (snd (resolve_tag 0 ''Politics'' demo_backend)))) =
     [\<lparr>t_id = 0, t_name = ''Politics'', t_slug = ''politics'', t_created_at = 1\<rparr>]"
proof -
  let ?s1 = "snd (resolve_tag 0 ''Politics'' demo_backend)"
  let ?R = "resolve_tag 1 ''politics'' ?s1"
  have lc: "toLowerCase ''Politics'' = toLowerCase ''politics''" by code_simp
  have first: "resolve_tag 0 ''Politics'' demo_backend = (Inr (), ?s1)"
    using demo_first_tag(1) by (cases "resolve_tag 0 ''Politics'' demo_backend") simp
  have second: "?R = (fst ?R, snd ?R)" by simp
  from case_variants_share_tag[OF lc first refl demo_first_tag(3) second]
  have "fst ?R = Inr () \<and> tags (snd ?R) = tags ?s1" by blast
  with lc demo_first_tag show ?thesis by simp
qed

section \<open>Properties of the read paths\<close>

lemma round_trip_fault:
  "faults s = Some e # fs \<Longrightarrow>
   round_trip rq h s =
     (Inl e, s\<lparr>faults := fs, trace := trace s @ [(rq, Some e)], clock := Suc (clock s)\<rparr>)"
  by (simp add: round_trip_def error_of_def)

lemma posts_select_policy_faults [simp]:
  "posts_select_policy (s\<lparr>faults := fs\<rparr>) = posts_select_policy s"
  by (intro ext) (simp add: posts_select_policy_def has_role_def split: option.splits)

lemma published_visible:
  "filter (\<lambda>p. posts_select_policy s p \<and> P p \<and> p_published p) rows =
   filter (\<lambda>p. P p \<and> p_published p) rows"
  by (rule filter_cong) (auto simp: posts_select_policy_def)

lemma posts_select_published_effect:
  assumes "posts_select_published s = (r, s')"
  shows "posts s' = posts s \<and> tags s' = tags s \<and> post_tags s' = post_tags s \<and>
         objects s' = objects s \<and> user_roles s' = user_roles s \<and>
         (answers s \<longrightarrow>
            r = Inr (rev (sort_key p_created_at (filter p_published (posts s)))))"
proof -
  have "filter (\<lambda>p. posts_select_policy s p \<and> p_published p) (posts s) =
      filter p_published (posts s)"
    using published_visible[of s "\<lambda>p. True" "posts s"] by simp
  with round_trip_read[OF assms[unfolded posts_select_published_def]] show ?thesis by simp
qed

lemma posts_select_by_slug_effect:
  assumes "posts_select_by_slug slug s = (r, s')"
  shows "answers s \<longrightarrow>
           r = maybeSingle (filter (\<lambda>p. p_slug p = slug \<and> p_published p) (posts s))"
  using round_trip_read[OF assms[unfolded posts_select_by_slug_def]]
  by (simp add: published_visible)

lemma post_tags_select_by_tag_effect:
  assumes "post_tags_select_by_tag tid s = (r, s')"
  shows "answers s \<longrightarrow>
           r = Inr (map (\<lambda>l. find (\<lambda>p. p_id p = pt_post_id l \<and> posts_select_policy s p) (posts s))
                     (filter (\<lambda>l. pt_tag_id l = tid) (post_tags s)))"
  using round_trip_read[OF assms[unfolded post_tags_select_by_tag_def]] by simp

lemma sorted_desc_sort_key:
  "sorted_wrt (\<lambda>a b. k b \<le> k a) (rev (sort_key k xs))"
proof -
  have "sorted (map k (sort_key k xs))" by (rule sorted_sort_key)
  then have "sorted_wrt (\<lambda>a b. k a \<le> k b) (sort_key k xs)" by (simp add: sorted_map)
  then show ?thesis by (simp add: sorted_wrt_rev)
qed

subsection \<open>The tag page\<close>

lemma fetchPostsByTag_unknown:
  assumes "answers s" and "filter (\<lambda>t. t_slug t = slug) (tags s) = []"
  shows "fst (fetchPostsByTag slug v s) = v\<lparr>g_loading := False\<rparr>"
proof -
  obtain r s1 where l: "tags_select_by_slug slug s = (r, s1)"
    by (cases "tags_select_by_slug slug s") auto
  from tags_select_by_slug_effect[OF l] assms have "r = Inr None"
    by (simp add: maybeSingle_def)
  with l show ?thesis by (simp add: fetchPostsByTag_def)
qed

lemma round_trip_read_faults:
  "round_trip rq (\<lambda>t. (q t, t)) s = (r, s') \<Longrightarrow> faults s' = tl (faults s)"
  by (auto simp: round_trip_def split: list.splits option.splits)

lemma answers_both_next:
  assumes "answers_both s" and "tags_select_by_slug slug s = (r, s1)"
  shows "answers s \<and> answers s1"
proof -
  from assms(2) have f: "faults s1 = tl (faults s)"
    unfolding tags_select_by_slug_def by (rule round_trip_read_faults)
  from assms(1) show ?thesis
    unfolding answers_def f answers_both_def
    by (cases "faults s"; cases "tl (faults s)") (auto split: option.splits)
qed

lemma fetchPostsByTag_no_posts:
  assumes "answers_both s" and "filter (\<lambda>t. t_slug t = slug) (tags s) = [t]"
    and "filter (\<lambda>l. pt_tag_id l = t_id t) (post_tags s) = []"
  shows "fst (fetchPostsByTag slug v s) =
           v\<lparr>g_tagName := t_name t, g_posts := [], g_loading := False\<rparr>"
proof -
  obtain r s1 where l: "tags_select_by_slug slug s = (r, s1)"
    by (cases "tags_select_by_slug slug s") auto
  note e1 = tags_select_by_slug_effect[OF l]
  note a = answers_both_next[OF assms(1) l]
  from e1 a assms(2) have r: "r = Inr (Some t)" by (simp add: maybeSingle_def)
  obtain r2 s2 where k: "post_tags_select_by_tag (t_id t) s1 = (r2, s2)"
    by (cases "post_tags_select_by_tag (t_id t) s1") auto
  from post_tags_select_by_tag_effect[OF k] a e1 assms(3) have "r2 = Inr []" by simp
  with l r k show ?thesis by (simp add: fetchPostsByTag_def)
qed

subsection \<open>The post page\<close>

lemma fetchPost_unknown:
  assumes "answers s" and "filter (\<lambda>p. p_slug p = slug \<and> p_published p) (posts s) = []"
  shows "fst (fetchPost slug v s) = v\<lparr>d_post := None, d_loading := False\<rparr>"
proof -
  obtain r s1 where l: "posts_select_by_slug slug s = (r, s1)"
    by (cases "posts_select_by_slug slug s") auto
  from posts_select_by_slug_effect[OF l] assms have "r = Inr None"
    by (simp add: maybeSingle_def)
  with l show ?thesis by (simp add: fetchPost_def)
qed

section \<open>Claims about the read paths\<close>

text \<open>
  C8.  The public listing issues one query and changes no table.  When the query is
  answered, the page holds exactly the published posts (each as often as the table has
  it), the most recent first.
\<close>

theorem listing_published_desc:
  assumes "fetchPosts v s = (v', s')"
  shows "posts s' = posts s \<and> tags s' = tags s \<and> post_tags s' = post_tags s \<and>
         objects s' = objects s \<and> user_roles s' = user_roles s \<and>
         (answers s \<longrightarrow>
            mset (h_posts v') = mset (filter p_published (posts s)) \<and>
            sorted_wrt (\<lambda>a b. p_created_at b \<le> p_created_at a) (h_posts v') \<and>
            \<not> h_loading v' \<and> h_console v' = h_console v)"
proof -
  obtain r s1 where q: "posts_select_published s = (r, s1)"
    by (cases "posts_select_published s") auto
  note e = posts_select_published_effect[OF q]
  from assms q have s': "s' = s1" by (auto simp: fetchPosts_def split: sum.splits)
  have "mset (h_posts v') = mset (filter p_published (posts s)) \<and>
        sorted_wrt (\<lambda>a b. p_created_at b \<le> p_created_at a) (h_posts v') \<and>
        \<not> h_loading v' \<and> h_console v' = h_console v" if "answers s"
  proof -
    from e that have r: "r = Inr (rev (sort_key p_created_at (filter p_published (posts s))))"
      by simp
    with assms q have "v' = v\<lparr>h_posts := rev (sort_key p_created_at (filter p_published (posts s))),
        h_loading := False\<rparr>" by (simp add: fetchPosts_def)
    then show ?thesis by (simp add: sorted_desc_sort_key)
  qed
  with e s' show ?thesis by simp
qed

lemma demo_listing:
  "h_posts (fst (fetchPosts home_init demo_library)) =
     [\<lparr>p_id = 12, p_title = ''Fair'', p_slug = ''fair'', p_content = ''Sun.'',
       p_excerpt = ''Sun.'', p_featured_image = None, p_author_id = ''u2'',
       p_created_at = 9, p_published = True\<rparr>,
      \<lparr>p_id = 10, p_title = ''Storm'', p_slug = ''storm'', p_content = ''Rain.'',
       p_excerpt = ''Rain.'', p_featured_image = None, p_author_id = ''u1'',
       p_created_at = 5, p_published = True\<rparr>]"
  "answers demo_library"
  by code_simp+

theorem listing_published_desc_witness:
  "answers demo_library \<and>
   h_posts (fst (fetchPosts home_init demo_library)) =
     [\<lparr>p_id = 12, p_title = ''Fair'', p_slug = ''fair'', p_content = ''Sun.'',
       p_excerpt = ''Sun.'', p_featured_image = None, p_author_id = ''u2'',
       p_created_at = 9, p_published = True\<rparr>,
      \<lparr>p_id = 10, p_title = ''Storm'', p_slug = ''storm'', p_content = ''Rain.'',
       p_excerpt = ''Rain.'', p_featured_image = None, p_author_id = ''u1'',
       p_created_at = 5, p_published = True\<rparr>] \<and>
   posts (snd (fetchPosts home_init demo_library)) = posts demo_library \<and>
   sorted_wrt (\<lambda>a b. p_created_at b \<le> p_created_at a)
     (h_posts (fst (fetchPosts home_init demo_library)))"
proof -
  let ?R = "fetchPosts home_init demo_library"
  have run: "?R = (fst ?R, snd ?R)" by simp
  from listing_published_desc[OF run] demo_listing show ?thesis by simp
qed

text \<open>
  C9, as stated: on the read paths an unknown slug gives a valid empty result, and the
  caller tells this apart from a backend failure so that the two render differently.

  The second half does not hold: asked for a tag or a post while the backend fails, the
  pages render exactly what they render for a slug that does not exist.
\<close>

theorem failure_renders_as_not_found:
  "render_tag (fst (fetchPostsByTag ''nowhere'' tag_init
      (demo_library\<lparr>faults := [Some (BackendError ''Failed to fetch'')]\<rparr>))) =
     TagPage ''Tag not found'' NoPostsFound \<and>
   render_tag (fst (fetchPostsByTag ''nowhere'' tag_init demo_library)) =
     TagPage ''Tag not found'' NoPostsFound \<and>
   render_detail (fst (fetchPost ''nowhere'' detail_init
      (demo_library\<lparr>faults := [Some (BackendError ''Failed to fetch'')]\<rparr>))) = PostNotFound \<and>
   render_detail (fst (fetchPost ''nowhere'' detail_init demo_library)) = PostNotFound"
  by code_simp

text \<open>
  C9, amended: on the read paths an unknown slug is a valid result and not an error.  With
  no tag of the slug the tag page only leaves its loading state, with no published post of
  the slug the post page holds no post, and for a tag without posts the tag page holds the
  name of the tag and no posts; nothing is passed to \<open>console.error\<close>.  A page shown for the
  first time then renders \<open>Tag not found\<close> with the line for no posts, \<open>Post Not Found\<close>, or
  the heading of the tag (\<open>Tag not found\<close> if its name is empty) with the line for no posts.

  A backend failure, a query that returns an error as every query does while a fault is
  pending, is told apart only by the error passed to \<open>console.error\<close>; no page state
  records it and it is not rendered as an error.  A failed tag lookup leaves the tag page
  as an unknown tag does, and a failed post lookup leaves the post page as it was: on a
  page shown for the first time they render \<open>Tag not found\<close> and \<open>Post Not Found\<close>.  When
  the tag is found and the query for its posts fails, the page takes the name of the tag
  and keeps the posts it had: shown for the first time, it renders the heading of the tag
  with the line for no posts, whether or not the tag has posts.

  Neither an unknown tag nor a failure clears what a page already shows: the tag page keeps
  its posts (and, unless the tag was found, its heading), the post page keeps its post
  after a failure.
\<close>

theorem not_found_is_empty:
  "(answers s \<and> filter (\<lambda>t. t_slug t = slug) (tags s) = [] \<longrightarrow>
      fst (fetchPostsByTag slug v s) = v\<lparr>g_loading := False\<rparr> \<and>
      render_tag (fst (fetchPostsByTag slug tag_init s)) = TagPage ''Tag not found'' NoPostsFound) \<and>
   (answers_both s \<and> filter (\<lambda>t. t_slug t = slug) (tags s) = [t] \<and>
    filter (\<lambda>l. pt_tag_id l = t_id t) (post_tags s) = [] \<longrightarrow>
      fst (fetchPostsByTag slug v s) =
        v\<lparr>g_tagName := t_name t, g_posts := [], g_loading := False\<rparr> \<and>
      render_tag (fst (fetchPostsByTag slug v s)) =
        TagPage (if t_name t \<noteq> [] then ''Posts tagged \"'' @ t_name t @ ''\"''
                 else ''Tag not found'') NoPostsFound) \<and>
   (answers s \<and> filter (\<lambda>p. p_slug p = slug \<and> p_published p) (posts s) = [] \<longrightarrow>
      fst (fetchPost slug w s) = w\<lparr>d_post := None, d_loading := False\<rparr> \<and>
      render_detail (fst (fetchPost slug w s)) = PostNotFound) \<and>
   (tags_select_by_slug slug s = (Inl e, s1) \<longrightarrow>
      fst (fetchPostsByTag slug v s) =
        v\<lparr>g_loading := False, g_console := g_console v @ [e]\<rparr> \<and>
      render_tag (fst (fetchPostsByTag slug v s)) = render_tag (v\<lparr>g_loading := False\<rparr>) \<and>
      render_tag (fst (fetchPostsByTag slug tag_init s)) = TagPage ''Tag not found'' NoPostsFound) \<and>
   (tags_select_by_slug slug s = (Inr (Some t), s1) \<and>
    post_tags_select_by_tag (t_id t) s1 = (Inl e, s2) \<longrightarrow>
      fst (fetchPostsByTag slug v s) =
        v\<lparr>g_tagName := t_name t, g_loading := False, g_console := g_console v @ [e]\<rparr> \<and>
      render_tag (fst (fetchPostsByTag slug tag_init s)) =
        TagPage (if t_name t \<noteq> [] then ''Posts tagged \"'' @ t_name t @ ''\"''
                 else ''Tag not found'') NoPostsFound) \<and>
   (posts_select_by_slug slug s = (Inl e, s1) \<longrightarrow>
      fst (fetchPost slug w s) = w\<lparr>d_loading := False, d_console := d_console w @ [e]\<rparr> \<and>
      render_detail (fst (fetchPost slug w s)) = render_detail (w\<lparr>d_loading := False\<rparr>) \<and>
      render_detail (fst (fetchPost slug detail_init s)) = PostNotFound) \<and>
   (faults s = Some e # fs \<longrightarrow>
      fst (tags_select_by_slug slug s) = Inl e \<and> fst (posts_select_by_slug slug s) = Inl e \<and>
      fst (post_tags_select_by_tag tid s) = Inl e)"
proof (intro conjI impI)
  assume "answers s \<and> filter (\<lambda>t. t_slug t = slug) (tags s) = []"
  then have a: "\<And>v. fst (fetchPostsByTag slug v s) = v\<lparr>g_loading := False\<rparr>"
    by (simp add: fetchPostsByTag_unknown)
  show "fst (fetchPostsByTag slug v s) = v\<lparr>g_loading := False\<rparr>" by (rule a)
  show "render_tag (fst (fetchPostsByTag slug tag_init s)) = TagPage ''Tag not found'' NoPostsFound"
    unfolding a by (simp add: render_tag_def tag_init_def)
next
  assume "answers_both s \<and> filter (\<lambda>t. t_slug t = slug) (tags s) = [t] \<and>
    filter (\<lambda>l. pt_tag_id l = t_id t) (post_tags s) = []"
  then have a: "fst (fetchPostsByTag slug v s) =
      v\<lparr>g_tagName := t_name t, g_posts := [], g_loading := False\<rparr>"
    by (simp add: fetchPostsByTag_no_posts)
  show "fst (fetchPostsByTag slug v s) =
      v\<lparr>g_tagName := t_name t, g_posts := [], g_loading := False\<rparr>" by (rule a)
  show "render_tag (fst (fetchPostsByTag slug v s)) =
        TagPage (if t_name t \<noteq> [] then ''Posts tagged \"'' @ t_name t @ ''\"''
                 else ''Tag not found'') NoPostsFound"
    unfolding a by (simp add: render_tag_def)
next
  assume "answers s \<and> filter (\<lambda>p. p_slug p = slug \<and> p_published p) (posts s) = []"
  then have a: "fst (fetchPost slug w s) = w\<lparr>d_post := None, d_loading := False\<rparr>"
    by (simp add: fetchPost_unknown)
  show "fst (fetchPost slug w s) = w\<lparr>d_post := None, d_loading := False\<rparr>" by (rule a)
  show "render_detail (fst (fetchPost slug w s)) = PostNotFound"
    unfolding a by (simp add: render_detail_def)
next
  assume f: "tags_select_by_slug slug s = (Inl e, s1)"
  have a: "\<And>v. fst (fetchPostsByTag slug v s) =
      v\<lparr>g_loading := False, g_console := g_console v @ [e]\<rparr>"
    by (simp add: fetchPostsByTag_def f)
  show "fst (fetchPostsByTag slug v s) = v\<lparr>g_loading := False, g_console := g_console v @ [e]\<rparr>"
    by (rule a)
  show "render_tag (fst (fetchPostsByTag slug v s)) = render_tag (v\<lparr>g_loading := False\<rparr>)"
    unfolding a by (simp add: render_tag_def)
  show "render_tag (fst (fetchPostsByTag slug tag_init s)) = TagPage ''Tag not found'' NoPostsFound"
    unfolding a by (simp add: render_tag_def tag_init_def)
next
  assume "tags_select_by_slug slug s = (Inr (Some t), s1) \<and>
    post_tags_select_by_tag (t_id t) s1 = (Inl e, s2)"
  then have a: "\<And>v. fst (fetchPostsByTag slug v s) =
      v\<lparr>g_tagName := t_name t, g_loading := False, g_console := g_console v @ [e]\<rparr>"
    by (simp add: fetchPostsByTag_def)
  show "fst (fetchPostsByTag slug v s) =
      v\<lparr>g_tagName := t_name t, g_loading := False, g_console := g_console v @ [e]\<rparr>"
    by (rule a)
  show "render_tag (fst (fetchPostsByTag slug tag_init s)) =
        TagPage (if t_name t \<noteq> [] then ''Posts tagged \"'' @ t_name t @ ''\"''
                 else ''Tag not found'') NoPostsFound"
    unfolding a by (simp add: render_tag_def tag_init_def)
next
  assume f: "posts_select_by_slug slug s = (Inl e, s1)"
  have b: "\<And>w. fst (fetchPost slug w s) =
      w\<lparr>d_loading := False, d_console := d_console w @ [e]\<rparr>"
    by (simp add: fetchPost_def f)
  show "fst (fetchPost slug w s) = w\<lparr>d_loading := False, d_console := d_console w @ [e]\<rparr>"
    by (rule b)
  show "render_detail (fst (fetchPost slug w s)) = render_detail (w\<lparr>d_loading := False\<rparr>)"
    unfolding b by (simp add: render_detail_def)
  show "render_detail (fst (fetchPost slug detail_init s)) = PostNotFound"
    unfolding b by (simp add: render_detail_def detail_init_def)
next
  assume f: "faults s = Some e # fs"
  show "fst (tags_select_by_slug slug s) = Inl e"
    by (simp add: tags_select_by_slug_def round_trip_fault[OF f])
  show "fst (posts_select_by_slug slug s) = Inl e"
    by (simp add: posts_select_by_slug_def round_trip_fault[OF f])
  show "fst (post_tags_select_by_tag tid s) = Inl e"
    by (simp add: post_tags_select_by_tag_def round_trip_fault[OF f])
qed

lemma demo_library_facts:
  "answers demo_library" "answers_both demo_library"
  "filter (\<lambda>t. t_slug t = ''nowhere'') (tags demo_library) = []"
  "filter (\<lambda>t. t_slug t = ''sport'') (tags demo_library) =
     [\<lparr>t_id = 21, t_name = ''Sport'', t_slug = ''sport'', t_created_at = 6\<rparr>]"
  "filter (\<lambda>l. pt_tag_id l = 21) (post_tags demo_library) = []"
  "filter (\<lambda>p. p_slug p = ''draft'' \<and> p_published p) (posts demo_library) = []"
  "filter (\<lambda>t. t_slug t = ''news'') (tags demo_library) =
     [\<lparr>t_id = 20, t_name = ''News'', t_slug = ''news'', t_created_at = 5\<rparr>]"
  by code_simp+

lemma demo_shown:
  "fst (fetchPostsByTag ''news'' tag_init demo_library) =
     \<lparr>g_posts = [\<lparr>p_id = 10, p_title = ''Storm'', p_slug = ''storm'', p_content = ''Rain.'',
                   p_excerpt = ''Rain.'', p_featured_image = None, p_author_id = ''u1'',
                   p_created_at = 5, p_published = True\<rparr>],
      g_tagName = ''News'', g_loading = False, g_console = []\<rparr>"
  "fst (fetchPost ''storm'' detail_init demo_library) =
     \<lparr>d_post = Some \<lparr>p_id = 10, p_title = ''Storm'', p_slug = ''storm'', p_content = ''Rain.'',
                   p_excerpt = ''Rain.'', p_featured_image = None, p_author_id = ''u1'',
                   p_created_at = 5, p_published = True\<rparr>,
      d_loading = False, d_console = []\<rparr>"
  by code_simp+

lemma demo_half:
  "fst (tags_select_by_slug ''news''
     (demo_library\<lparr>faults := [None, Some (BackendError ''Failed to fetch'')]\<rparr>)) =
   Inr (Some \<lparr>t_id = 20, t_name = ''News'', t_slug = ''news'', t_created_at = 5\<rparr>)"
  "fst (post_tags_select_by_tag 20 (snd (tags_select_by_slug ''news''
     (demo_library\<lparr>faults := [None, Some (BackendError ''Failed to fetch'')]\<rparr>)))) =
   Inl (BackendError ''Failed to fetch'')"
  by code_simp+

theorem not_found_is_empty_witness:
  "answers demo_library \<and> answers_both demo_library \<and>
   filter (\<lambda>t. t_slug t = ''nowhere'') (tags demo_library) = [] \<and>
   filter (\<lambda>p. p_slug p = ''draft'' \<and> p_published p) (posts demo_library) = [] \<and>
   filter (\<lambda>t. t_slug t = ''sport'') (tags demo_library) =
     [\<lparr>t_id = 21, t_name = ''Sport'', t_slug = ''sport'', t_created_at = 6\<rparr>] \<and>
   filter (\<lambda>l. pt_tag_id l = 21) (post_tags demo_library) = [] \<and>
   filter (\<lambda>t. t_slug t = ''news'') (tags demo_library) =
     [\<lparr>t_id = 20, t_name = ''News'', t_slug = ''news'', t_created_at = 5\<rparr>] \<and>
   fst (fetchPostsByTag ''nowhere'' tag_init demo_library) = tag_init\<lparr>g_loading := False\<rparr> \<and>
   render_tag (fst (fetchPostsByTag ''nowhere'' tag_init demo_library)) =
     TagPage ''Tag not found'' NoPostsFound \<and>
   render_tag (fst (fetchPostsByTag ''nowhere''
       (fst (fetchPostsByTag ''news'' tag_init demo_library)) demo_library)) =
     TagPage ''Posts tagged \"News\"''
       (Cards [\<lparr>p_id = 10, p_title = ''Storm'', p_slug = ''storm'', p_content = ''Rain.'',
                p_excerpt = ''Rain.'', p_featured_image = None, p_author_id = ''u1'',
                p_created_at = 5, p_published = True\<rparr>]) \<and>
   render_tag (fst (fetchPostsByTag ''sport'' tag_init demo_library)) =
     TagPage ''Posts tagged \"Sport\"'' NoPostsFound \<and>
   g_console (fst (fetchPostsByTag ''sport'' tag_init demo_library)) = [] \<and>
   render_detail (fst (fetchPost ''draft'' detail_init demo_library)) = PostNotFound \<and>
   d_console (fst (fetchPost ''draft'' detail_init demo_library)) = [] \<and>
   render_tag (fst (fetchPostsByTag ''news'' tag_init
      (demo_library\<lparr>faults := [Some (BackendError ''Failed to fetch'')]\<rparr>))) =
     TagPage ''Tag not found'' NoPostsFound \<and>
   g_console (fst (fetchPostsByTag ''news'' tag_init
      (demo_library\<lparr>faults := [Some (BackendError ''Failed to fetch'')]\<rparr>))) =
     [BackendError ''Failed to fetch''] \<and>
   render_detail (fst (fetchPost ''storm'' detail_init
      (demo_library\<lparr>faults := [Some (BackendError ''Failed to fetch'')]\<rparr>))) = PostNotFound \<and>
   d_console (fst (fetchPost ''storm'' detail_init
      (demo_library\<lparr>faults := [Some (BackendError ''Failed to fetch'')]\<rparr>))) =
     [BackendError ''Failed to fetch''] \<and>
   render_detail (fst (fetchPost ''storm''
      (fst (fetchPost ''storm'' detail_init demo_library))
      (demo_library\<lparr>faults := [Some (BackendError ''Failed to fetch'')]\<rparr>))) =
     Article \<lparr>p_id = 10, p_title = ''Storm'', p_slug = ''storm'', p_content = ''Rain.'',
               p_excerpt = ''Rain.'', p_featured_image = None, p_author_id = ''u1'',
               p_created_at = 5, p_published = True\<rparr> \<and>
   fst (tags_select_by_slug ''news''
     (demo_library\<lparr>faults := [None, Some (BackendError ''Failed to fetch'')]\<rparr>)) =
     Inr (Some \<lparr>t_id = 20, t_name = ''News'', t_slug = ''news'', t_created_at = 5\<rparr>) \<and>
   fst (post_tags_select_by_tag 20 (snd (tags_select_by_slug ''news''
     (demo_library\<lparr>faults := [None, Some (BackendError ''Failed to fetch'')]\<rparr>)))) =
     Inl (BackendError ''Failed to fetch'') \<and>
   render_tag (fst (fetchPostsByTag ''news'' tag_init
      (demo_library\<lparr>faults := [None, Some (BackendError ''Failed to fetch'')]\<rparr>))) =
     TagPage ''Posts tagged \"News\"'' NoPostsFound \<and>
   g_console (fst (fetchPostsByTag ''news'' tag_init
      (demo_library\<lparr>faults := [None, Some (BackendError ''Failed to fetch'')]\<rparr>))) =
     [BackendError ''Failed to fetch'']"
proof -
  note f = demo_library_facts
  let ?e = "BackendError ''Failed to fetch''"
  let ?storm = "\<lparr>p_id = 10, p_title = ''Storm'', p_slug = ''storm'', p_content = ''Rain.'',
     p_excerpt = ''Rain.'', p_featured_image = None, p_author_id = ''u1'',
     p_created_at = 5, p_published = True\<rparr>"
  let ?sport = "\<lparr>t_id = 21, t_name = ''Sport'', t_slug = ''sport'', t_created_at = 6\<rparr>"
  let ?news = "\<lparr>t_id = 20, t_name = ''News'', t_slug = ''news'', t_created_at = 5\<rparr>"
  let ?down = "demo_library\<lparr>faults := [Some ?e]\<rparr>"
  let ?half = "demo_library\<lparr>faults := [None, Some ?e]\<rparr>"
  let ?shown = "fst (fetchPostsByTag ''news'' tag_init demo_library)"
  let ?read = "fst (fetchPost ''storm'' detail_init demo_library)"
  have fd: "faults ?down = Some ?e # []" by simp
  from not_found_is_empty[where s = "?down" and e = "?e" and fs = "[]" and slug = "''news''"] fd
  have "fst (tags_select_by_slug ''news'' ?down) = Inl ?e" by blast
  then have q1: "tags_select_by_slug ''news'' ?down =
      (Inl ?e, snd (tags_select_by_slug ''news'' ?down))" by (simp add: prod_eq_iff)
  from not_found_is_empty[where s = "?down" and e = "?e" and fs = "[]" and slug = "''storm''"] fd
  have "fst (posts_select_by_slug ''storm'' ?down) = Inl ?e" by blast
  then have q2: "posts_select_by_slug ''storm'' ?down =
      (Inl ?e, snd (posts_select_by_slug ''storm'' ?down))" by (simp add: prod_eq_iff)
  have "fst (tags_select_by_slug ''news'' ?half) = Inr (Some ?news)" by (rule demo_half(1))
  then have q3: "tags_select_by_slug ''news'' ?half =
      (Inr (Some ?news), snd (tags_select_by_slug ''news'' ?half))" by (simp add: prod_eq_iff)
  have "fst (post_tags_select_by_tag (t_id ?news) (snd (tags_select_by_slug ''news'' ?half))) =
      Inl ?e" using demo_half(2) by simp
  then have q4: "post_tags_select_by_tag (t_id ?news) (snd (tags_select_by_slug ''news'' ?half)) =
      (Inl ?e, snd (post_tags_select_by_tag (t_id ?news)
         (snd (tags_select_by_slug ''news'' ?half))))" by (simp add: prod_eq_iff)
  from not_found_is_empty[where s = demo_library and slug = "''nowhere''" and v = tag_init] f(1,3)
  have 1: "fst (fetchPostsByTag ''nowhere'' tag_init demo_library) = tag_init\<lparr>g_loading := False\<rparr>"
    "render_tag (fst (fetchPostsByTag ''nowhere'' tag_init demo_library)) =
       TagPage ''Tag not found'' NoPostsFound" by blast+
  from not_found_is_empty[where s = demo_library and slug = "''nowhere''" and v = "?shown"] f(1,3)
  have "fst (fetchPostsByTag ''nowhere'' ?shown demo_library) = ?shown\<lparr>g_loading := False\<rparr>"
    by blast
  then have 2: "render_tag (fst (fetchPostsByTag ''nowhere'' ?shown demo_library)) =
      TagPage ''Posts tagged \"News\"'' (Cards [?storm])"
    by (simp add: demo_shown render_tag_def)
  have l3: "filter (\<lambda>l. pt_tag_id l = t_id ?sport) (post_tags demo_library) = []"
    using f(5) by simp
  from not_found_is_empty[where s = demo_library and slug = "''sport''" and t = "?sport" and
      v = tag_init] f(2,4) l3
  have 3: "fst (fetchPostsByTag ''sport'' tag_init demo_library) =
        tag_init\<lparr>g_tagName := t_name ?sport, g_posts := [], g_loading := False\<rparr>"
    "render_tag (fst (fetchPostsByTag ''sport'' tag_init demo_library)) =
        TagPage (if t_name ?sport \<noteq> [] then ''Posts tagged \"'' @ t_name ?sport @ ''\"''
                 else ''Tag not found'') NoPostsFound" by blast+
  from 3(1) have c3: "g_console (fst (fetchPostsByTag ''sport'' tag_init demo_library)) = []"
    by (simp add: tag_init_def)
  from 3(2) have r3: "render_tag (fst (fetchPostsByTag ''sport'' tag_init demo_library)) =
     TagPage ''Posts tagged \"Sport\"'' NoPostsFound" by simp
  from not_found_is_empty[where s = demo_library and slug = "''draft''" and w = detail_init] f(1,6)
  have 4: "fst (fetchPost ''draft'' detail_init demo_library) =
        detail_init\<lparr>d_post := None, d_loading := False\<rparr>"
    "render_detail (fst (fetchPost ''draft'' detail_init demo_library)) = PostNotFound"
    by blast+
  from 4(1) have c4: "d_console (fst (fetchPost ''draft'' detail_init demo_library)) = []"
    by (simp add: detail_init_def)
  from not_found_is_empty[where s = "?down" and e = "?e" and slug = "''news''" and
      v = tag_init and ?s1.0 = "snd (tags_select_by_slug ''news'' ?down)"] q1
  have 5: "fst (fetchPostsByTag ''news'' tag_init ?down) =
        tag_init\<lparr>g_loading := False, g_console := g_console tag_init @ [?e]\<rparr>"
    "render_tag (fst (fetchPostsByTag ''news'' tag_init ?down)) =
        TagPage ''Tag not found'' NoPostsFound" by blast+
  from 5(1) have c5: "g_console (fst (fetchPostsByTag ''news'' tag_init ?down)) = [?e]"
    by (simp add: tag_init_def)
  from not_found_is_empty[where s = "?down" and e = "?e" and slug = "''storm''" and
      w = detail_init and ?s1.0 = "snd (posts_select_by_slug ''storm'' ?down)"] q2
  have 6: "fst (fetchPost ''storm'' detail_init ?down) =
        detail_init\<lparr>d_loading := False, d_console := d_console detail_init @ [?e]\<rparr>"
    "render_detail (fst (fetchPost ''storm'' detail_init ?down)) = PostNotFound" by blast+
  from 6(1) have c6: "d_console (fst (fetchPost ''storm'' detail_init ?down)) = [?e]"
    by (simp add: detail_init_def)
  from not_found_is_empty[where s = "?down" and e = "?e" and slug = "''storm''" and
      w = "?read" and ?s1.0 = "snd (posts_select_by_slug ''storm'' ?down)"] q2
  have "render_detail (fst (fetchPost ''storm'' ?read ?down)) =
      render_detail (?read\<lparr>d_loading := False\<rparr>)" by blast
  then have 7: "render_detail (fst (fetchPost ''storm'' ?read ?down)) = Article ?storm"
    by (simp add: demo_shown render_detail_def)
  from not_found_is_empty[where s = "?half" and e = "?e" and slug = "''news''" and
      t = "?news" and v = tag_init and ?s1.0 = "snd (tags_select_by_slug ''news'' ?half)" and
      ?s2.0 = "snd (post_tags_select_by_tag (t_id ?news)
         (snd (tags_select_by_slug ''news'' ?half)))"] q3 q4
  have 8: "fst (fetchPostsByTag ''news'' tag_init ?half) =
        tag_init\<lparr>g_tagName := t_name ?news, g_loading := False,
                 g_console := g_console tag_init @ [?e]\<rparr>"
    "render_tag (fst (fetchPostsByTag ''news'' tag_init ?half)) =
        TagPage (if t_name ?news \<noteq> [] then ''Posts tagged \"'' @ t_name ?news @ ''\"''
                 else ''Tag not found'') NoPostsFound" by blast+
  from 8(1) have c8: "g_console (fst (fetchPostsByTag ''news'' tag_init ?half)) = [?e]"
    by (simp add: tag_init_def)
  from 8(2) have r8: "render_tag (fst (fetchPostsByTag ''news'' tag_init ?half)) =
     TagPage ''Posts tagged \"News\"'' NoPostsFound" by simp
  show ?thesis
    by (intro conjI)
      (rule f(1) f(2) f(3) f(6) f(4) f(5) f(7) 1 2 r3 c3 4(2) c4 5(2) c5 6(2) c6 7
         demo_half r8 c8)+
qed

end
